theory Spec2Isabelle
  imports Main "HOL-Library.Word"
begin

section \<open>Byte-level BPE tokenizer (ByteTokenizer.py, BpeTokenier.py)\<close>

text \<open>
  The Python exceptions that the tokenizer code can raise: an index out of range of a
  list, a key missing from a dict, \<open>max\<close> of an empty iterable, and a string that the
  UTF-8 codec cannot encode.
\<close>

datatype error = IndexError | KeyError | ValueError | UnicodeEncodeError

type_synonym byte = "8 word"
type_synonym bytes = "byte list"
type_synonym pair = "int \<times> int"

subsection \<open>Python dicts\<close>

text \<open>
  A Python dict iterates in insertion order, and \<open>max(cnt, key=cnt.get)\<close> depends on
  that order, so a dict is an association list with distinct keys: a new key goes to
  the end, an assignment to an existing key keeps its place.
\<close>

type_synonym ('k, 'v) dict = "('k \<times> 'v) list"

definition dict_get :: "('k, 'v) dict \<Rightarrow> 'k \<Rightarrow> 'v option" where
  "dict_get d k = map_of d k"

fun dict_set :: "('k, 'v) dict \<Rightarrow> 'k \<Rightarrow> 'v \<Rightarrow> ('k, 'v) dict" where
  "dict_set [] k v = [(k, v)]"
| "dict_set ((k', v') # d) k v =
     (if k' = k then (k', v) # d else (k', v') # dict_set d k v)"

definition dict_keys :: "('k, 'v) dict \<Rightarrow> 'k list" where
  "dict_keys d = map fst d"

definition dict_len :: "('k, 'v) dict \<Rightarrow> nat" where
  "dict_len d = length d"

subsection \<open>count_pairs\<close>

text \<open>
  \<^verbatim>\<open>
  Dict = {}
  for i in data:
      for j in range(len(i)-1):
          if tuple([i[j], i[j+1]]) in Dict: Dict[(i[j], i[j+1])] += 1
          else: Dict[(i[j], i[j+1])] = 1
  return Dict
  \<close>
  For the empty list \<open>range(-1)\<close> is empty, as \<open>[0..<0 - 1]\<close> is.
\<close>

definition count_one :: "(pair, int) dict \<Rightarrow> pair \<Rightarrow> (pair, int) dict" where
  "count_one d p =
     (case dict_get d p of Some c \<Rightarrow> dict_set d p (c + 1) | None \<Rightarrow> dict_set d p 1)"

definition count_seq :: "int list \<Rightarrow> (pair, int) dict \<Rightarrow> (pair, int) dict" where
  "count_seq i d = fold (\<lambda>j d. count_one d (i ! j, i ! (j + 1))) [0..<length i - 1] d"

definition count_pairs :: "int list list \<Rightarrow> (pair, int) dict" where
  "count_pairs data = fold count_seq data []"

text \<open>
  \<open>max(cnt, key=cnt.get)\<close>: the first key, in iteration order, whose value no later
  value exceeds; ValueError on the empty dict.
\<close>

fun max_scan :: "'k \<times> int \<Rightarrow> ('k, int) dict \<Rightarrow> 'k \<times> int" where
  "max_scan best [] = best"
| "max_scan (bk, bv) ((k, v) # d) = (if v > bv then max_scan (k, v) d else max_scan (bk, bv) d)"

fun max_key :: "('k, int) dict \<Rightarrow> error + 'k" where
  "max_key [] = Inl ValueError"
| "max_key (kv # d) = Inr (fst (max_scan kv d))"

subsection \<open>merge\<close>

text \<open>
  \<^verbatim>\<open>
  i = 0
  while i != len(numbers)-1:
      if (numbers[i],numbers[i+1]) == pair:
          numbers[i] = idx
          del numbers[i+1]
      i += 1
  return numbers
  \<close>
  \<open>merge_loop\<close> is the loop on the contents of the list: \<open>i\<close> never is negative, so
  \<open>numbers[i]\<close> and \<open>numbers[i+1]\<close> raise IndexError exactly when \<open>i + 1\<close> is not
  below the length.
\<close>

definition list_del :: "'a list \<Rightarrow> nat \<Rightarrow> 'a list" where
  "list_del xs k = take k xs @ drop (Suc k) xs"

function merge_loop :: "int list \<Rightarrow> pair \<Rightarrow> int \<Rightarrow> nat \<Rightarrow> error + int list" where
  "merge_loop numbers pair idx i =
     (if int i \<noteq> int (length numbers) - 1 then
        if length numbers \<le> i + 1 then Inl IndexError
        else if (numbers ! i, numbers ! (i + 1)) = pair
          then merge_loop (list_del (numbers[i := idx]) (i + 1)) pair idx (i + 1)
          else merge_loop numbers pair idx (i + 1)
      else Inr numbers)"
  by pat_completeness auto
termination
  by (relation "measure (\<lambda>(numbers, pair, idx, i). length numbers - i)")
     (auto simp: list_del_def)

definition merge :: "int list \<Rightarrow> pair \<Rightarrow> int \<Rightarrow> error + int list" where
  "merge numbers pair idx = merge_loop numbers pair idx 0"

text \<open>
  The same loop on a store of list objects: \<open>numbers\<close> is the address of the list, the
  two statements of the branch update the object in place, and the value returned is
  the address that was passed in.
\<close>

type_synonym addr = nat
type_synonym store = "addr \<Rightarrow> int list"

function merge_obj_loop :: "store \<Rightarrow> addr \<Rightarrow> pair \<Rightarrow> int \<Rightarrow> nat \<Rightarrow> (error + addr) \<times> store" where
  "merge_obj_loop h numbers pair idx i =
     (if int i \<noteq> int (length (h numbers)) - 1 then
        if length (h numbers) \<le> i + 1 then (Inl IndexError, h)
        else if (h numbers ! i, h numbers ! (i + 1)) = pair
          then merge_obj_loop
                 (let h1 = h(numbers := (h numbers)[i := idx])
                  in h1(numbers := list_del (h1 numbers) (i + 1)))
                 numbers pair idx (i + 1)
          else merge_obj_loop h numbers pair idx (i + 1)
      else (Inr numbers, h))"
  by pat_completeness auto
termination
  by (relation "measure (\<lambda>(h, numbers, pair, idx, i). length (h numbers) - i)")
     (auto simp: list_del_def)

definition merge_obj :: "store \<Rightarrow> addr \<Rightarrow> pair \<Rightarrow> int \<Rightarrow> (error + addr) \<times> store" where
  "merge_obj h numbers pair idx = merge_obj_loop h numbers pair idx 0"

declare merge_loop.simps [simp del]
declare merge_obj_loop.simps [simp del]

subsection \<open>What merge computes\<close>

text \<open>
  The loop seen from the scan position: what is left of \<open>i\<close> is final, what is right of
  it is still to be scanned. The scan ends well on a suffix of one element and fails on a
  suffix of none.
\<close>

fun merge_suffix :: "int list \<Rightarrow> pair \<Rightarrow> int \<Rightarrow> error + int list" where
  "merge_suffix [] p idx = Inl IndexError"
| "merge_suffix [x] p idx = Inr [x]"
| "merge_suffix (x # y # r) p idx =
     (if (x, y) = p then map_sum id (Cons idx) (merge_suffix r p idx)
      else map_sum id (Cons x) (merge_suffix (y # r) p idx))"

text \<open>
  The rewrite in the words of the specification: left to right, each occurrence of the
  pair found is replaced and the scan goes on behind it.
\<close>

fun rewrite_pairs :: "int list \<Rightarrow> pair \<Rightarrow> int \<Rightarrow> int list" where
  "rewrite_pairs (x # y # r) p idx =
     (if (x, y) = p then idx # rewrite_pairs r p idx else x # rewrite_pairs (y # r) p idx)"
| "rewrite_pairs xs p idx = xs"

text \<open>
  The positions, in the list as passed, at which that scan replaces an occurrence, and
  whether the rightmost of them ends at the last index.
\<close>

fun replaced_at :: "int list \<Rightarrow> pair \<Rightarrow> nat \<Rightarrow> nat list" where
  "replaced_at (x # y # r) p k =
     (if (x, y) = p then k # replaced_at r p (k + 2) else replaced_at (y # r) p (k + 1))"
| "replaced_at xs p k = []"

definition ends_replaced :: "int list \<Rightarrow> pair \<Rightarrow> bool" where
  "ends_replaced numbers p =
     (let occ = replaced_at numbers p 0
      in occ \<noteq> [] \<and> last occ + 1 = length numbers - 1)"

lemma drop_two:
  "Suc i < length xs \<Longrightarrow> drop i xs = xs ! i # xs ! Suc i # drop (Suc (Suc i)) xs"
  by (simp add: Cons_nth_drop_Suc Suc_lessD)

lemma list_del_upd:
  "Suc i < length xs \<Longrightarrow>
   list_del (xs[i := v]) (Suc i) = take i xs @ v # drop (Suc (Suc i)) xs"
  by (simp add: list_del_def take_Suc_conv_app_nth)

lemma merge_loop_end: "i = length xs \<Longrightarrow> merge_loop xs p idx i = Inl IndexError"
  by (subst merge_loop.simps) simp

lemma merge_loop_last: "Suc i = length xs \<Longrightarrow> merge_loop xs p idx i = Inr xs"
  by (subst merge_loop.simps) auto

lemma merge_loop_match:
  "Suc i < length xs \<Longrightarrow> (xs ! i, xs ! Suc i) = p \<Longrightarrow>
   merge_loop xs p idx i = merge_loop (take i xs @ idx # drop (Suc (Suc i)) xs) p idx (Suc i)"
  by (subst merge_loop.simps) (simp add: list_del_upd)

lemma merge_loop_skip:
  "Suc i < length xs \<Longrightarrow> (xs ! i, xs ! Suc i) \<noteq> p \<Longrightarrow>
   merge_loop xs p idx i = merge_loop xs p idx (Suc i)"
  by (subst merge_loop.simps) simp

lemma map_sum_snoc:
  "map_sum id ((@) (as @ [a])) r = map_sum id ((@) as) (map_sum id (Cons a) r)"
  by (cases r) auto

lemma merge_loop_suffix:
  "i \<le> length xs \<Longrightarrow>
   merge_loop xs p idx i = map_sum id ((@) (take i xs)) (merge_suffix (drop i xs) p idx)"
proof (induction "length xs - i" arbitrary: xs i rule: less_induct)
  case less
  consider (e) "i = length xs" | (l) "Suc i = length xs" | (m) "Suc i < length xs"
    using less.prems by linarith
  then show ?case
  proof cases
    case e
    then show ?thesis by (simp add: merge_loop_end)
  next
    case l
    then have "drop i xs = [xs ! i]"
      by (metis Cons_nth_drop_Suc drop_all lessI order_refl)
    moreover have "take i xs @ [xs ! i] = xs"
      using l by (metis lessI take_Suc_conv_app_nth take_all order_refl)
    ultimately show ?thesis using l by (simp add: merge_loop_last)
  next
    case m
    note d = drop_two [OF m]
    show ?thesis
    proof (cases "(xs ! i, xs ! Suc i) = p")
      case True
      let ?ys = "take i xs @ idx # drop (Suc (Suc i)) xs"
      have tk: "take (Suc i) ?ys = take i xs @ [idx]" using m by simp
      have dr: "drop (Suc i) ?ys = drop (Suc (Suc i)) xs" using m by simp
      have "merge_loop ?ys p idx (Suc i) =
            map_sum id ((@) (take (Suc i) ?ys)) (merge_suffix (drop (Suc i) ?ys) p idx)"
        using m by (intro less.hyps) auto
      then show ?thesis
        using True m by (simp add: merge_loop_match tk dr d map_sum_snoc)
    next
      case False
      have "merge_loop xs p idx (Suc i) =
            map_sum id ((@) (take (Suc i) xs)) (merge_suffix (drop (Suc i) xs) p idx)"
        using m by (intro less.hyps) auto
      moreover have "take (Suc i) xs = take i xs @ [xs ! i]"
        using m by (simp add: take_Suc_conv_app_nth)
      moreover have "drop (Suc i) xs = xs ! Suc i # drop (Suc (Suc i)) xs"
        using m by (simp add: Cons_nth_drop_Suc)
      ultimately show ?thesis
        using False m by (simp add: merge_loop_skip d map_sum_snoc)
    qed
  qed
qed

lemma merge_suffix_eq: "merge xs p idx = merge_suffix xs p idx"
  using merge_loop_suffix [of 0 xs p idx]
  by (cases "merge_suffix xs p idx") (simp_all add: merge_def)

lemma merge_suffix_spec:
  "merge_suffix xs p idx =
     (if xs = [] \<or> (replaced_at xs p k \<noteq> [] \<and> last (replaced_at xs p k) + 2 = k + length xs)
      then Inl IndexError else Inr (rewrite_pairs xs p idx))"
proof (induction xs p k rule: replaced_at.induct)
  case (1 x y r p k)
  show ?case
  proof (cases "(x, y) = p")
    case True
    show ?thesis
    proof (cases "r = []")
      case True
      with \<open>(x, y) = p\<close> show ?thesis by simp
    next
      case False
      with True "1.IH"(1) show ?thesis by (simp add: add.commute)
    qed
  next
    case False
    with "1.IH"(2) show ?thesis by simp
  qed
qed simp_all

lemma merge_eq_rewrite:
  "merge numbers pair idx =
     (if numbers = [] \<or> ends_replaced numbers pair then Inl IndexError
      else Inr (rewrite_pairs numbers pair idx))"
proof -
  have "last (replaced_at numbers pair 0) + 1 = length numbers - 1 \<longleftrightarrow>
        last (replaced_at numbers pair 0) + 2 = 0 + length numbers" if "numbers \<noteq> []"
    using that by (cases numbers) auto
  then show ?thesis
    unfolding merge_suffix_eq ends_replaced_def Let_def
    by (subst merge_suffix_spec [where k = 0]) auto
qed

text \<open>
  C10. \<open>merge\<close> is not total. It raises IndexError when \<open>numbers\<close> is empty and when
  the rightmost occurrence of the pair that the scan replaces ends at the last index of
  the list; \<open>merge([97, 98], (97, 98), 259)\<close> raises instead of returning \<open>[259]\<close>.
  In every other case it returns the left-to-right non-overlapping rewrite.
\<close>

theorem merge_raises_or_rewrites:
  "merge numbers pair idx =
     (if numbers = [] \<or> ends_replaced numbers pair then Inl IndexError
      else Inr (rewrite_pairs numbers pair idx))
   \<and> merge [97, 98] (97, 98) 259 = Inl IndexError
   \<and> rewrite_pairs [97, 98] (97, 98) 259 = [259]"
proof -
  have "merge [97, 98] (97, 98) 259 = Inl IndexError"
    by (simp add: merge_eq_rewrite ends_replaced_def)
  then show ?thesis by (simp add: merge_eq_rewrite)
qed

theorem merge_raises_or_rewrites_witness:
  "merge [] (97, 97) 259 = Inl IndexError
   \<and> merge [97, 97, 97, 97] (97, 97) 259 = Inl IndexError
   \<and> merge [97, 97, 97, 98] (97, 97) 259 = Inr [259, 97, 98]"
  using merge_raises_or_rewrites [of "[]" "(97, 97)" 259]
    merge_raises_or_rewrites [of "[97, 97, 97, 97]" "(97, 97)" 259]
    merge_raises_or_rewrites [of "[97, 97, 97, 98]" "(97, 97)" 259]
  by (simp add: ends_replaced_def)

subsection \<open>merge and the list object it is given\<close>

lemma merge_obj_loop_refines:
  "fst (merge_obj_loop h a p idx i) = map_sum id (\<lambda>_. a) (merge_loop (h a) p idx i) \<and>
   (\<forall>ys. merge_loop (h a) p idx i = Inr ys \<longrightarrow>
      snd (merge_obj_loop h a p idx i) = h(a := ys))"
proof (induction h a p idx i rule: merge_obj_loop.induct)
  case (1 h numbers pair idx i)
  let ?xs = "h numbers"
  let ?h' = "h(numbers := list_del (?xs[i := idx]) (i + 1))"
  note L = merge_loop.simps [of ?xs pair idx i]
  note O = merge_obj_loop.simps [of h numbers pair idx i]
  consider (ret) "int i = int (length ?xs) - 1"
    | (err) "int i \<noteq> int (length ?xs) - 1" "length ?xs \<le> i + 1"
    | (hit) "int i \<noteq> int (length ?xs) - 1" "\<not> length ?xs \<le> i + 1"
            "(?xs ! i, ?xs ! (i + 1)) = pair"
    | (skip) "int i \<noteq> int (length ?xs) - 1" "\<not> length ?xs \<le> i + 1"
            "(?xs ! i, ?xs ! (i + 1)) \<noteq> pair"
    by blast
  then show ?case
  proof cases
    case ret
    then show ?thesis by (auto simp add: L O)
  next
    case err
    then show ?thesis by (simp add: L O)
  next
    case hit
    have l: "merge_loop ?xs pair idx i = merge_loop (?h' numbers) pair idx (i + 1)"
      using hit by (simp add: L)
    have o: "merge_obj_loop h numbers pair idx i = merge_obj_loop ?h' numbers pair idx (i + 1)"
      using hit by (simp add: O Let_def)
    have eqh: "(let h1 = h(numbers := ?xs[i := idx])
                in h1(numbers := list_del (h1 numbers) (i + 1))) = ?h'"
      by (simp add: Let_def)
    have upd: "?h'(numbers := ys) = h(numbers := ys)" for ys by simp
    have nxt: "?h' numbers = list_del (?xs[i := idx]) (i + 1)" by simp
    note IH = "1.IH"(1) [OF hit(1) hit(2) hit(3), unfolded eqh]
    show ?thesis
      unfolding l o using IH unfolding upd nxt by blast
  next
    case skip
    have l: "merge_loop ?xs pair idx i = merge_loop ?xs pair idx (i + 1)"
      using skip by (simp add: L)
    have o: "merge_obj_loop h numbers pair idx i = merge_obj_loop h numbers pair idx (i + 1)"
      using skip by (simp add: O)
    from "1.IH"(2) [OF skip(1) skip(2) skip(3)] show ?thesis
      unfolding l o by simp
  qed
qed

text \<open>
  Whenever \<open>merge\<close> returns, the object returned is the object passed in, and that
  object holds the rewritten sequence.
\<close>

lemma merge_obj_returns_argument:
  assumes "merge (h numbers) pair idx = Inr ys"
  shows "merge_obj h numbers pair idx = (Inr numbers, h(numbers := ys))"
  using assms merge_obj_loop_refines [of h numbers pair idx 0]
  by (simp add: merge_def merge_obj_def prod_eq_iff)

text \<open>
  C9. \<open>merge\<close> is claimed to be pure: to leave the list object passed as \<open>numbers\<close>
  unchanged and to return the rewritten sequence as a separate value. On the list
  \<open>[97, 98, 99]\<close> held at address 0, with the pair \<open>(97, 98)\<close> and the id 259, the
  call returns address 0 itself, and the object there now holds \<open>[259, 99]\<close>.
\<close>

theorem merge_mutates_its_argument:
  "merge_obj ((\<lambda>_. [])(0 := [97, 98, 99])) 0 (97, 98) 259 =
     (Inr 0, (\<lambda>_. [])(0 := [259, 99]))
   \<and> ((\<lambda>_. [])(0 := [259, 99])) (0 :: addr) \<noteq> [97, 98, 99 :: int]"
  by (simp add: merge_obj_def merge_obj_loop.simps list_del_def)


section \<open>The tokenizer\<close>

text \<open>
  A Python \<open>str\<close> is a sequence of code points. The tokenizer object has the fields
  that \<open>init_vocab\<close> and \<open>train\<close> assign; the three special tokens are set once
  in \<open>__init__\<close> and never assigned again, so they are constants. The ids are
  \<open>None\<close> until \<open>init_vocab\<close> has run.
\<close>

type_synonym str = "nat list"

record tokenizer =
  pad_token_id :: "int option"
  bos_token_id :: "int option"
  eos_token_id :: "int option"
  vocab :: "(int, bytes) dict"
  merges :: "(pair, int) dict"

definition pad_token :: bytes where "pad_token = [60, 112, 97, 100, 62]"
definition bos_token :: bytes where "bos_token = [60, 98, 111, 115, 62]"
definition eos_token :: bytes where "eos_token = [60, 101, 111, 115, 62]"

definition special_tokens :: "bytes list" where
  "special_tokens = [pad_token, bos_token, eos_token]"

text \<open>\<open>d[k]\<close> raises KeyError when the key is missing.\<close>

definition lookup :: "('k, 'v) dict \<Rightarrow> 'k \<Rightarrow> error + 'v" where
  "lookup d k = (case dict_get d k of None \<Rightarrow> Inl KeyError | Some v \<Rightarrow> Inr v)"

subsection \<open>ByteTokenizer.init_vocab and BpeTokenizer.init_vocab\<close>

text \<open>
  \<^verbatim>\<open>
  self.vocab = {idx: bytes([idx]) for idx in range(256)}
  for token in self.special_tokens:
      idx = len(self.vocab)
      self.vocab[idx] = token
  token_to_id = {y: x for x, y in self.vocab.items()}
  self.pad_token_id = token_to_id[self.pad_token]
  self.bos_token_id = token_to_id[self.bos_token]
  self.eos_token_id = token_to_id[self.eos_token]
  \<close>
  A method is a function from the object to the outcome (an exception or the value
  returned) and the object as the call leaves it.
\<close>

definition byte_vocab :: "(int, bytes) dict" where
  "byte_vocab = fold (\<lambda>idx d. dict_set d (int idx) [of_nat idx]) [0..<256] []"

definition add_tokens :: "bytes list \<Rightarrow> (int, bytes) dict \<Rightarrow> (int, bytes) dict" where
  "add_tokens tokens d = fold (\<lambda>token d. dict_set d (int (dict_len d)) token) tokens d"

definition token_to_id :: "(int, bytes) dict \<Rightarrow> (bytes, int) dict" where
  "token_to_id d = fold (\<lambda>(x, y) r. dict_set r y x) d []"

definition byte_init_vocab :: "tokenizer \<Rightarrow> (error + unit) \<times> tokenizer" where
  "byte_init_vocab self =
     (let self1 = self\<lparr>vocab := add_tokens special_tokens byte_vocab\<rparr>;
          t2i = token_to_id (vocab self1)
      in case lookup t2i pad_token of Inl e \<Rightarrow> (Inl e, self1) | Inr p \<Rightarrow>
         (let self2 = self1\<lparr>pad_token_id := Some p\<rparr>
          in case lookup t2i bos_token of Inl e \<Rightarrow> (Inl e, self2) | Inr b \<Rightarrow>
             (let self3 = self2\<lparr>bos_token_id := Some b\<rparr>
              in case lookup t2i eos_token of Inl e \<Rightarrow> (Inl e, self3) | Inr e \<Rightarrow>
                 (Inr (), self3\<lparr>eos_token_id := Some e\<rparr>))))"

definition init_vocab :: "tokenizer \<Rightarrow> (error + unit) \<times> tokenizer" where
  "init_vocab self =
     (case byte_init_vocab self of
        (Inl e, self1) \<Rightarrow> (Inl e, self1)
      | (Inr u, self1) \<Rightarrow> (Inr (), self1\<lparr>merges := []\<rparr>))"

subsection \<open>text.encode('utf-8')\<close>

text \<open>
  The UTF-8 codec of the Python runtime: one to four bytes per code point; a surrogate
  (and anything that is not a code point) cannot be encoded.
\<close>

definition utf8_char :: "nat \<Rightarrow> error + bytes" where
  "utf8_char c =
     (if c < 0x80 then Inr [of_nat c]
      else if c < 0x800 then Inr [of_nat (0xC0 + c div 64), of_nat (0x80 + c mod 64)]
      else if 0xD800 \<le> c \<and> c \<le> 0xDFFF then Inl UnicodeEncodeError
      else if c < 0x10000 then
        Inr [of_nat (0xE0 + c div 4096), of_nat (0x80 + c div 64 mod 64), of_nat (0x80 + c mod 64)]
      else if c < 0x110000 then
        Inr [of_nat (0xF0 + c div 262144), of_nat (0x80 + c div 4096 mod 64),
             of_nat (0x80 + c div 64 mod 64), of_nat (0x80 + c mod 64)]
      else Inl UnicodeEncodeError)"

fun utf8_encode :: "str \<Rightarrow> error + bytes" where
  "utf8_encode [] = Inr []"
| "utf8_encode (c # cs) =
     (case utf8_char c of Inl e \<Rightarrow> Inl e
      | Inr bs \<Rightarrow> (case utf8_encode cs of Inl e \<Rightarrow> Inl e | Inr r \<Rightarrow> Inr (bs @ r)))"

definition ids_of_text :: "str \<Rightarrow> error + int list" where
  "ids_of_text text = map_sum id (map uint) (utf8_encode text)"

subsection \<open>BpeTokenizer.train\<close>

text \<open>
  \<^verbatim>\<open>
  self.init_vocab()
  if max_vocab <= len(self.vocab):
      return
  progress_bar = tqdm(range(max_vocab - len(self.vocab)))
  list_of_ids = [list(text.encode('utf-8')) for text in texts]
  print(list_of_ids)
  for _ in progress_bar:
      cnt = count_pairs(list_of_ids)
      pair = max(cnt, key=cnt.get)
      freq = cnt[pair]
      if freq == 1:
          break
      new_idx = len(self.vocab)
      self.merges[pair] = new_idx
      self.vocab[new_idx] = self.vocab[pair[0]] + self.vocab[pair[1]]
      for i, ids in enumerate(list_of_ids):
          list_of_ids[i] = merge(ids, pair, new_idx)
  \<close>
  The progress bar and the \<open>print\<close> only write to the terminal. Each text gets a
  list object of its own, so the in-place rewriting of \<open>merge\<close> is seen only through
  \<open>list_of_ids[i]\<close>. \<open>train_body\<close> is one pass through the loop body, \<open>train_loop n\<close>
  the loop over \<open>range(n)\<close>; an exception leaves the object as it was when raised.
\<close>

fun merge_all :: "int list list \<Rightarrow> pair \<Rightarrow> int \<Rightarrow> error + int list list" where
  "merge_all [] pair idx = Inr []"
| "merge_all (ids # rest) pair idx =
     (case merge ids pair idx of Inl e \<Rightarrow> Inl e
      | Inr ids' \<Rightarrow> (case merge_all rest pair idx of Inl e \<Rightarrow> Inl e | Inr r \<Rightarrow> Inr (ids' # r)))"

fun ids_of_texts :: "str list \<Rightarrow> error + int list list" where
  "ids_of_texts [] = Inr []"
| "ids_of_texts (text # texts) =
     (case ids_of_text text of Inl e \<Rightarrow> Inl e
      | Inr ids \<Rightarrow> (case ids_of_texts texts of Inl e \<Rightarrow> Inl e | Inr r \<Rightarrow> Inr (ids # r)))"

datatype flow = Next "int list list" | Break | Raise error

definition train_body :: "tokenizer \<Rightarrow> int list list \<Rightarrow> flow \<times> tokenizer" where
  "train_body self list_of_ids =
     (let cnt = count_pairs list_of_ids
      in case max_key cnt of Inl e \<Rightarrow> (Raise e, self) | Inr pair \<Rightarrow>
         (case lookup cnt pair of Inl e \<Rightarrow> (Raise e, self) | Inr freq \<Rightarrow>
            if freq = 1 then (Break, self)
            else
              let new_idx = int (dict_len (vocab self));
                  self1 = self\<lparr>merges := dict_set (merges self) pair new_idx\<rparr>
              in case lookup (vocab self1) (fst pair) of Inl e \<Rightarrow> (Raise e, self1) | Inr l \<Rightarrow>
                 (case lookup (vocab self1) (snd pair) of Inl e \<Rightarrow> (Raise e, self1) | Inr r \<Rightarrow>
                    let self2 = self1\<lparr>vocab := dict_set (vocab self1) new_idx (l @ r)\<rparr>
                    in case merge_all list_of_ids pair new_idx of
                         Inl e \<Rightarrow> (Raise e, self2)
                       | Inr list_of_ids' \<Rightarrow> (Next list_of_ids', self2))))"

fun train_loop :: "nat \<Rightarrow> tokenizer \<Rightarrow> int list list \<Rightarrow> (error + int list list) \<times> tokenizer" where
  "train_loop 0 self list_of_ids = (Inr list_of_ids, self)"
| "train_loop (Suc n) self list_of_ids =
     (case train_body self list_of_ids of
        (Raise e, self1) \<Rightarrow> (Inl e, self1)
      | (Break, self1) \<Rightarrow> (Inr list_of_ids, self1)
      | (Next list_of_ids', self1) \<Rightarrow> train_loop n self1 list_of_ids')"

definition train :: "tokenizer \<Rightarrow> str list \<Rightarrow> int \<Rightarrow> (error + unit) \<times> tokenizer" where
  "train self texts max_vocab =
     (case init_vocab self of
        (Inl e, self1) \<Rightarrow> (Inl e, self1)
      | (Inr u, self1) \<Rightarrow>
          if max_vocab \<le> int (dict_len (vocab self1)) then (Inr (), self1)
          else
            (case ids_of_texts texts of Inl e \<Rightarrow> (Inl e, self1)
             | Inr list_of_ids \<Rightarrow>
                 (case train_loop (nat (max_vocab - int (dict_len (vocab self1)))) self1 list_of_ids of
                    (Inl e, self2) \<Rightarrow> (Inl e, self2)
                  | (Inr ls, self2) \<Rightarrow> (Inr (), self2))))"

text \<open>\<open>BpeTokenizer()\<close>: the fields as \<open>__init__\<close> sets them, then \<open>init_vocab\<close>.\<close>

definition new_tokenizer :: tokenizer where
  "new_tokenizer = snd (init_vocab \<lparr>pad_token_id = None, bos_token_id = None, eos_token_id = None, vocab = [], merges = []\<rparr>)"

subsection \<open>ByteTokenizer.decode\<close>

text \<open>
  \<^verbatim>\<open>
  text = b''.join(self.vocab[idx] for idx in ids).decode('utf-8', errors='replace')
  \<close>
  The UTF-8 decoder of the Python runtime with \<open>errors='replace'\<close>: a well-formed
  sequence gives its code point; an ill-formed one gives U+FFFD for its longest prefix
  that begins a well-formed sequence (one byte at least), and decoding goes on behind it.
  \<open>utf8_next b0 bs\<close> reads the sequence that starts with \<open>b0\<close> and says how many
  bytes of \<open>bs\<close> belong to it.
\<close>

definition is_cont :: "nat \<Rightarrow> bool" where
  "is_cont b \<longleftrightarrow> 0x80 \<le> b \<and> b \<le> 0xBF"

definition second_ok :: "nat \<Rightarrow> nat \<Rightarrow> bool" where
  "second_ok b0 b1 \<longleftrightarrow>
     (if b0 = 0xE0 then 0xA0 \<le> b1 \<and> b1 \<le> 0xBF
      else if b0 = 0xED then 0x80 \<le> b1 \<and> b1 \<le> 0x9F
      else if b0 = 0xF0 then 0x90 \<le> b1 \<and> b1 \<le> 0xBF
      else if b0 = 0xF4 then 0x80 \<le> b1 \<and> b1 \<le> 0x8F
      else is_cont b1)"

fun take_conts :: "nat \<Rightarrow> nat list \<Rightarrow> nat \<Rightarrow> nat \<Rightarrow> nat \<times> nat" where
  "take_conts 0 bs acc k = (acc, k)"
| "take_conts (Suc n) [] acc k = (0xFFFD, k)"
| "take_conts (Suc n) (b # bs) acc k =
     (if is_cont b then take_conts n bs (acc * 64 + (b - 0x80)) (Suc k) else (0xFFFD, k))"

definition utf8_next :: "nat \<Rightarrow> nat list \<Rightarrow> nat \<times> nat" where
  "utf8_next b0 bs =
     (if b0 < 0x80 then (b0, 0)
      else if b0 < 0xC2 \<or> 0xF4 < b0 then (0xFFFD, 0)
      else (case bs of
              [] \<Rightarrow> (0xFFFD, 0)
            | b1 # bs' \<Rightarrow>
                if \<not> second_ok b0 b1 then (0xFFFD, 0)
                else if b0 < 0xE0 then take_conts 0 bs' ((b0 - 0xC0) * 64 + (b1 - 0x80)) 1
                else if b0 < 0xF0 then
                  take_conts (Suc 0) bs' ((b0 - 0xE0) * 64 + (b1 - 0x80)) 1
                else take_conts (Suc (Suc 0)) bs' ((b0 - 0xF0) * 64 + (b1 - 0x80)) 1))"

function utf8_decode :: "nat list \<Rightarrow> str" where
  "utf8_decode [] = []"
| "utf8_decode (b0 # bs) = (let (c, k) = utf8_next b0 bs in c # utf8_decode (drop k bs))"
  by pat_completeness auto
termination
  by (relation "measure length") auto

fun join_vocab :: "(int, bytes) dict \<Rightarrow> int list \<Rightarrow> error + bytes" where
  "join_vocab v [] = Inr []"
| "join_vocab v (idx # ids) =
     (case lookup v idx of Inl e \<Rightarrow> Inl e
      | Inr b \<Rightarrow> (case join_vocab v ids of Inl e \<Rightarrow> Inl e | Inr r \<Rightarrow> Inr (b @ r)))"

definition decode :: "tokenizer \<Rightarrow> int list \<Rightarrow> error + str" where
  "decode self ids =
     (case join_vocab (vocab self) ids of Inl e \<Rightarrow> Inl e
      | Inr bs \<Rightarrow> Inr (utf8_decode (map unat bs)))"

text \<open>A valid Unicode string: code points up to U+10FFFF, no surrogates.\<close>

definition valid_code_point :: "nat \<Rightarrow> bool" where
  "valid_code_point c \<longleftrightarrow> c < 0x110000 \<and> \<not> (0xD800 \<le> c \<and> c \<le> 0xDFFF)"

definition valid_str :: "str \<Rightarrow> bool" where
  "valid_str s = list_all valid_code_point s"

subsection \<open>The base vocabulary\<close>

text \<open>
  What \<open>init_vocab\<close> computes, written out: the 256 single bytes under their own
  values, then the three special tokens under 256, 257 and 258.
\<close>

definition base_vocab :: "(int, bytes) dict" where
  "base_vocab = map (\<lambda>i. (int i, [of_nat i])) [0..<256] @
                [(256, pad_token), (257, bos_token), (258, eos_token)]"

lemma dict_set_new: "k \<notin> fst ` set d \<Longrightarrow> dict_set d k v = d @ [(k, v)]"
  by (induction d) auto

lemma fold_dict_set_upt:
  "fold (\<lambda>idx d. dict_set d (int idx) (f idx)) [0..<n] [] = map (\<lambda>i. (int i, f i)) [0..<n]"
proof (induction n)
  case 0
  show ?case by simp
next
  case (Suc n)
  have "int n \<notin> fst ` set (map (\<lambda>i. (int i, f i)) [0..<n])" by auto
  then show ?case using Suc by (simp add: dict_set_new)
qed

lemma byte_vocab_eq: "byte_vocab = map (\<lambda>i. (int i, [of_nat i])) [0..<256]"
  unfolding byte_vocab_def by (rule fold_dict_set_upt)

lemma add_tokens_eq: "add_tokens special_tokens byte_vocab = base_vocab"
proof -
  let ?m = "map (\<lambda>i. (int i, [of_nat i :: byte])) [0..<256]"
  have n0: "(256::int) \<notin> fst ` set ?m" by auto
  have n1: "(257::int) \<notin> fst ` set (?m @ [(256, pad_token)])" by auto
  have n2: "(258::int) \<notin> fst ` set (?m @ [(256, pad_token), (257, bos_token)])" by auto
  show ?thesis
    unfolding add_tokens_def special_tokens_def byte_vocab_eq base_vocab_def
    using n0 n1 n2 by (simp add: dict_len_def dict_set_new)
qed

lemma map_of_dict_set: "map_of (dict_set d k v) = (map_of d)(k \<mapsto> v)"
  by (induction d) (auto simp: fun_eq_iff)

lemma map_of_token_to_id_fold:
  "map_of (fold (\<lambda>(x, y) r. dict_set r y x) d r0) =
   fold (\<lambda>(x, y) m. m(y \<mapsto> x)) d (map_of r0)"
  by (induction d arbitrary: r0) (auto simp: map_of_dict_set)

lemma t2i_special:
  "lookup (token_to_id base_vocab) pad_token = Inr 256"
  "lookup (token_to_id base_vocab) bos_token = Inr 257"
  "lookup (token_to_id base_vocab) eos_token = Inr 258"
  by (simp_all add: lookup_def dict_get_def token_to_id_def base_vocab_def
      map_of_token_to_id_fold map_of_dict_set pad_token_def bos_token_def eos_token_def)

lemma byte_init_vocab_eq:
  "byte_init_vocab self =
     (Inr (), self\<lparr>vocab := base_vocab, pad_token_id := Some 256, bos_token_id := Some 257,
                  eos_token_id := Some 258\<rparr>)"
  by (simp add: byte_init_vocab_def add_tokens_eq t2i_special)

subsection \<open>Counting and selecting pairs\<close>

definition adjacent :: "'a list \<Rightarrow> ('a \<times> 'a) list" where
  "adjacent xs = zip xs (tl xs)"

lemma adjacent_simps [simp]:
  "adjacent [] = []" "adjacent [x] = []" "adjacent (x # y # r) = (x, y) # adjacent (y # r)"
  by (simp_all add: adjacent_def)

lemma index_pairs: "map (\<lambda>j. (i ! j, i ! (j + 1))) [0..<length i - 1] = adjacent i"
  by (rule nth_equalityI) (auto simp: adjacent_def nth_tl)

definition dict_val :: "('k, int) dict \<Rightarrow> 'k \<Rightarrow> int" where
  "dict_val d k = (case map_of d k of None \<Rightarrow> 0 | Some c \<Rightarrow> c)"

lemma keys_dict_set:
  "map fst (dict_set d k v) = (if k \<in> fst ` set d then map fst d else map fst d @ [k])"
  by (induction d) (auto simp: rev_image_eqI)

lemma distinct_dict_set: "distinct (map fst d) \<Longrightarrow> distinct (map fst (dict_set d k v))"
  by (simp add: keys_dict_set)

lemma count_one_keys:
  "map fst (count_one d p) = (if p \<in> fst ` set d then map fst d else map fst d @ [p])"
  by (simp add: count_one_def keys_dict_set split: option.splits)

lemma count_one_val: "dict_val (count_one d p) q = dict_val d q + (if q = p then 1 else 0)"
  by (simp add: count_one_def dict_val_def dict_get_def map_of_dict_set split: option.splits)

lemma count_one_key_set: "fst ` set (count_one d p) = insert p (fst ` set d)"
  using arg_cong [OF count_one_keys [of d p], of set] by (auto split: if_splits)

lemma fold_count_keys:
  "fst ` set (fold (\<lambda>p d. count_one d p) ps d) = fst ` set d \<union> set ps"
  by (induction ps arbitrary: d) (auto simp: count_one_key_set)

lemma fold_count_distinct:
  "distinct (map fst d) \<Longrightarrow> distinct (map fst (fold (\<lambda>p d. count_one d p) ps d))"
  by (induction ps arbitrary: d) (auto simp: count_one_keys)

lemma fold_count_val:
  "dict_val (fold (\<lambda>p d. count_one d p) ps d) q = dict_val d q + int (count_list ps q)"
  by (induction ps arbitrary: d) (auto simp: count_one_val)

lemma count_seq_adjacent: "count_seq i d = fold (\<lambda>p d. count_one d p) (adjacent i) d"
  unfolding count_seq_def index_pairs [symmetric] by (simp add: fold_map comp_def)

lemma fold_count_seq:
  "fold count_seq data d = fold (\<lambda>p d. count_one d p) (concat (map adjacent data)) d"
  by (induction data arbitrary: d) (simp_all add: count_seq_adjacent)

lemma count_pairs_adjacent:
  "count_pairs data = fold (\<lambda>p d. count_one d p) (concat (map adjacent data)) []"
  by (simp add: count_pairs_def fold_count_seq)

lemma count_pairs_keys: "fst ` set (count_pairs data) = (\<Union>ids \<in> set data. set (adjacent ids))"
  by (simp add: count_pairs_adjacent fold_count_keys)

lemma count_pairs_distinct: "distinct (map fst (count_pairs data))"
  by (simp add: count_pairs_adjacent fold_count_distinct)

lemma count_pairs_val:
  "dict_val (count_pairs data) q = int (count_list (concat (map adjacent data)) q)"
  unfolding count_pairs_adjacent fold_count_val by (simp add: dict_val_def)

lemma max_scan_max:
  "max_scan (bk, bv) d = (k, v) \<Longrightarrow>
   ((k, v) = (bk, bv) \<or> (k, v) \<in> set d) \<and> bv \<le> v \<and> (\<forall>(k', v') \<in> set d. v' \<le> v)"
proof (induction d arbitrary: bk bv)
  case Nil
  then show ?case by simp
next
  case (Cons a d)
  obtain k1 v1 where a: "a = (k1, v1)" by (cases a)
  show ?case
  proof (cases "v1 > bv")
    case True
    with Cons.prems a have "max_scan (k1, v1) d = (k, v)" by simp
    from Cons.IH [OF this] True a show ?thesis by auto
  next
    case False
    with Cons.prems a have "max_scan (bk, bv) d = (k, v)" by simp
    from Cons.IH [OF this] False a show ?thesis by auto
  qed
qed

lemma max_key_max:
  assumes "max_key d = Inr k"
  shows "\<exists>v. (k, v) \<in> set d \<and> (\<forall>(k', v') \<in> set d. v' \<le> v)"
proof (cases d)
  case Nil
  with assms show ?thesis by simp
next
  case (Cons a d')
  obtain bk bv where a: "a = (bk, bv)" by (cases a)
  obtain k1 v1 where m: "max_scan (bk, bv) d' = (k1, v1)" by (cases "max_scan (bk, bv) d'")
  with assms Cons a have "k1 = k" by simp
  with max_scan_max [OF m] Cons a show ?thesis by (intro exI [of _ v1]) auto
qed

lemma max_key_nonempty: "d \<noteq> [] \<Longrightarrow> \<exists>k. max_key d = Inr k"
  by (cases d) auto

lemma max_key_in_keys: "max_key d = Inr k \<Longrightarrow> k \<in> fst ` set d"
  using max_key_max [of d k] by force

lemma merge_suffix_length:
  "merge_suffix xs p idx = Inr ys \<Longrightarrow>
   length ys \<le> length xs \<and> (p \<in> set (adjacent xs) \<longrightarrow> length ys < length xs)"
proof (induction xs p idx arbitrary: ys rule: merge_suffix.induct)
  case (3 x y r p idx)
  show ?case
  proof (cases "(x, y) = p")
    case True
    with "3.prems" obtain ys' where "merge_suffix r p idx = Inr ys'" "ys = idx # ys'"
      by (cases "merge_suffix r p idx") auto
    with "3.IH"(1) [OF True] show ?thesis by auto
  next
    case False
    with "3.prems" obtain ys' where "merge_suffix (y # r) p idx = Inr ys'" "ys = x # ys'"
      by (cases "merge_suffix (y # r) p idx") auto
    with "3.IH"(2) [OF False] False show ?thesis by auto
  qed
qed auto

lemma merge_shrinks:
  assumes "max_key (count_pairs [ids]) = Inr pair" "merge ids pair idx = Inr ids'"
  shows "length ids' < length ids"
proof -
  have "pair \<in> set (adjacent ids)"
    using max_key_in_keys [OF assms(1)] by (simp add: count_pairs_keys)
  with merge_suffix_length [of ids pair idx ids'] assms(2) show ?thesis
    by (simp add: merge_suffix_eq)
qed

subsection \<open>BpeTokenizer.encode\<close>

text \<open>
  \<^verbatim>\<open>
  ids = list(text.encode('utf-8'))
  while len(ids) > 1:
      cnt = count_pairs([ids])
      pair = max(cnt, key=cnt.get)
      if pair not in self.merges:
          break
      idx = self.merges[pair]
      ids = merge(ids, pair, idx)
  return ids
  \<close>
  The loop ends: the selected pair occurs in \<open>ids\<close>, so \<open>merge\<close> returns a shorter
  list when it returns.
\<close>

function encode_loop :: "(pair, int) dict \<Rightarrow> int list \<Rightarrow> error + int list" where
  "encode_loop mrg ids =
     (if length ids > 1 then
        (case max_key (count_pairs [ids]) of Inl e \<Rightarrow> Inl e
         | Inr pair \<Rightarrow>
             (case dict_get mrg pair of None \<Rightarrow> Inr ids
              | Some idx \<Rightarrow>
                  (case merge ids pair idx of Inl e \<Rightarrow> Inl e
                   | Inr ids' \<Rightarrow> encode_loop mrg ids')))
      else Inr ids)"
  by pat_completeness auto
termination
  by (relation "measure (\<lambda>(mrg, ids). length ids)") (auto simp: merge_shrinks)

declare encode_loop.simps [simp del]

definition encode :: "tokenizer \<Rightarrow> str \<Rightarrow> error + int list" where
  "encode self text =
     (case ids_of_text text of Inl e \<Rightarrow> Inl e | Inr ids \<Rightarrow> encode_loop (merges self) ids)"

text \<open>\<open>ByteTokenizer.encode\<close>: \<open>return list(text.encode('utf-8'))\<close>.\<close>

definition byte_encode :: "tokenizer \<Rightarrow> str \<Rightarrow> error + int list" where
  "byte_encode self text = ids_of_text text"


section \<open>Properties\<close>

subsection \<open>The state after init_vocab\<close>

lemma init_vocab_eq:
  "init_vocab self =
     (Inr (), self\<lparr>vocab := base_vocab, pad_token_id := Some 256, bos_token_id := Some 257,
                  eos_token_id := Some 258, merges := []\<rparr>)"
  by (simp add: init_vocab_def byte_init_vocab_eq)

lemma base_vocab_keys: "map fst base_vocab = map int [0..<259]"
proof -
  have "[256..<259] = [256, 257, 258::nat]"
    by (simp add: upt_conv_Cons)
  with upt_add_eq_append [of 0 256 3] have "[0..<259] = [0..<256] @ [256, 257, 258]"
    by simp
  then show ?thesis by (simp add: base_vocab_def comp_def)
qed

lemma base_vocab_len: "dict_len base_vocab = 259"
  using arg_cong [OF base_vocab_keys, of length] by (simp add: dict_len_def)

lemma base_vocab_key_set: "fst ` set base_vocab = {0..<259}"
proof -
  have "fst ` set base_vocab = set (map fst base_vocab)" by simp
  also have "\<dots> = int ` {0..<259}" unfolding base_vocab_keys by simp
  also have "\<dots> = {0..<259}" by (simp add: image_int_atLeastLessThan)
  finally show ?thesis .
qed

lemma base_vocab_distinct: "distinct (map fst base_vocab)"
  unfolding base_vocab_keys by (simp add: distinct_map)

lemma lookup_base_byte:
  assumes "0 \<le> i" "i < 256"
  shows "lookup base_vocab i = Inr [of_int i]"
proof -
  define n where "n = nat i"
  have n: "i = int n" "n < 256" using assms by (auto simp: n_def)
  have "(int n, [of_nat n]) \<in> set (map (\<lambda>i. (int i, [of_nat i :: byte])) [0..<256])"
    using n(2) by (simp add: image_iff)
  then have "(i, [of_int i]) \<in> set base_vocab"
    unfolding base_vocab_def n(1) by simp
  then have "map_of base_vocab i = Some [of_int i]"
    using base_vocab_distinct by simp
  then show ?thesis by (simp add: lookup_def dict_get_def)
qed

subsection \<open>The scenario of the specification: train(["aaab", "aaab"], 260)\<close>

lemma count_example:
  "count_pairs [[97, 97, 97, 98], [97, 97, 97, 98]] = [((97, 97), 4), ((97, 98), 2)]"
  by (simp add: count_pairs_adjacent count_one_def dict_get_def)

lemma ids_aaab: "ids_of_text [97, 97, 97, 98] = Inr [97, 97, 97, 98]"
  by (simp add: ids_of_text_def utf8_char_def)

text \<open>The tokenizer that the run leaves.\<close>

definition trained_aaab :: "tokenizer \<Rightarrow> tokenizer" where
  "trained_aaab self =
     self\<lparr>vocab := base_vocab @ [(259, [97, 97])], pad_token_id := Some 256,
          bos_token_id := Some 257, eos_token_id := Some 258, merges := [((97, 97), 259)]\<rparr>"

lemma train_loop_aaab:
  "train_loop 1 (snd (init_vocab self)) [[97, 97, 97, 98], [97, 97, 97, 98]] =
     (Inr [[259, 97, 98], [259, 97, 98]], trained_aaab self)"
  by (simp add: init_vocab_eq train_body_def count_example lookup_def dict_get_def
      base_vocab_len lookup_base_byte [unfolded lookup_def dict_get_def] dict_set_new
      base_vocab_key_set merge_eq_rewrite ends_replaced_def trained_aaab_def)

lemma train_aaab:
  "train self [[97, 97, 97, 98], [97, 97, 97, 98]] 260 = (Inr (), trained_aaab self)"
  using train_loop_aaab [of self]
  by (simp add: train_def init_vocab_eq base_vocab_len ids_aaab)

text \<open>
  C3. \<open>train(["aaab", "aaab"], 260)\<close> performs exactly one merge. The pooled counts are
  4 for \<open>(97, 97)\<close> and 2 for \<open>(97, 98)\<close>; the pair \<open>(97, 97)\<close> is selected and gets
  the id 259, \<open>vocab[259]\<close> is \<open>b"aa"\<close>, each sequence \<open>[97, 97, 97, 98]\<close> becomes
  \<open>[259, 97, 98]\<close>, and training stops with 260 vocabulary entries and the merge table
  \<open>{(97, 97): 259}\<close>.
\<close>

theorem train_aaab_example:
  "ids_of_texts [[97, 97, 97, 98], [97, 97, 97, 98]] = Inr [[97, 97, 97, 98], [97, 97, 97, 98]]
   \<and> count_pairs [[97, 97, 97, 98], [97, 97, 97, 98]] = [((97, 97), 4), ((97, 98), 2)]
   \<and> max_key (count_pairs [[97, 97, 97, 98], [97, 97, 97, 98]]) = Inr (97, 97)
   \<and> dict_len (vocab (snd (init_vocab self))) = 259
   \<and> merge [97, 97, 97, 98] (97, 97) 259 = Inr [259, 97, 98]
   \<and> train_loop (nat (260 - 259)) (snd (init_vocab self)) [[97, 97, 97, 98], [97, 97, 97, 98]] =
       (Inr [[259, 97, 98], [259, 97, 98]], trained_aaab self)
   \<and> train self [[97, 97, 97, 98], [97, 97, 97, 98]] 260 = (Inr (), trained_aaab self)
   \<and> lookup (vocab (trained_aaab self)) 259 = Inr [97, 97]
   \<and> dict_len (vocab (trained_aaab self)) = 260
   \<and> merges (trained_aaab self) = [((97, 97), 259)]"
proof -
  have "(259::int) \<notin> fst ` set base_vocab"
    unfolding base_vocab_key_set by simp
  then have "map_of base_vocab 259 = None"
    by (simp add: map_of_eq_None_iff)
  then have "lookup (vocab (trained_aaab self)) 259 = Inr [97, 97]"
    by (simp add: trained_aaab_def lookup_def dict_get_def map_add_def)
  moreover have "dict_len (vocab (trained_aaab self)) = 260"
    using base_vocab_len by (simp add: trained_aaab_def dict_len_def)
  moreover have "merge [97, 97, 97, 98] (97, 97) 259 = Inr [259, 97, 98]"
    by (simp add: merge_eq_rewrite ends_replaced_def)
  ultimately show ?thesis
    using train_loop_aaab [of self] train_aaab [of self]
    by (simp add: ids_aaab count_example init_vocab_eq base_vocab_len trained_aaab_def)
qed

text \<open>
  C1. \<open>encode\<close> is claimed never to raise on a tokenizer that a completed training run
  has produced. The run \<open>train(["aaab", "aaab"], 260)\<close> completes, and on the tokenizer
  it leaves \<open>encode("aa")\<close> raises IndexError: the selected pair \<open>(97, 97)\<close> is in the
  merge table and its occurrence ends at the last index of \<open>[97, 97]\<close>.
\<close>

theorem encode_raises_after_training:
  "fst (train self [[97, 97, 97, 98], [97, 97, 97, 98]] 260) = Inr ()
   \<and> encode (snd (train self [[97, 97, 97, 98], [97, 97, 97, 98]] 260)) [97, 97] = Inl IndexError"
proof -
  have "ids_of_text [97, 97] = Inr [97, 97]"
    by (simp add: ids_of_text_def utf8_char_def)
  moreover have "count_pairs [[97, 97]] = [((97, 97), 1)]"
    by (simp add: count_pairs_adjacent count_one_def dict_get_def)
  moreover have "merge [97, 97] (97, 97) 259 = Inl IndexError"
    by (simp add: merge_eq_rewrite ends_replaced_def)
  ultimately show ?thesis
    by (simp add: train_aaab encode_def encode_loop.simps [of _ "[97, 97]"] trained_aaab_def
        dict_get_def)
qed

text \<open>
  C2. \<open>train\<close> on an empty corpus, or on texts of at most one byte, is claimed to end
  at once without raising, for every target size. With the target 260 the loop body
  runs, \<open>count_pairs\<close> returns the empty dict and \<open>max\<close> raises ValueError; the
  vocabulary then has its 259 entries and no merge is recorded.
\<close>

theorem train_empty_corpus_raises:
  "train self [] 260 = (Inl ValueError, snd (init_vocab self))
   \<and> train self [[97]] 260 = (Inl ValueError, snd (init_vocab self))
   \<and> dict_len (vocab (snd (init_vocab self))) = 259
   \<and> merges (snd (init_vocab self)) = []"
proof -
  have "ids_of_text [97] = Inr [97]"
    by (simp add: ids_of_text_def utf8_char_def)
  moreover have "count_pairs [] = []" "count_pairs [[97]] = []"
    by (simp_all add: count_pairs_adjacent)
  ultimately show ?thesis
    by (simp add: train_def init_vocab_eq base_vocab_len train_body_def)
qed

lemma lookup_base_special:
  "lookup base_vocab 256 = Inr pad_token"
  "lookup base_vocab 257 = Inr bos_token"
  "lookup base_vocab 258 = Inr eos_token"
proof -
  have "(256, pad_token) \<in> set base_vocab" "(257, bos_token) \<in> set base_vocab"
    "(258, eos_token) \<in> set base_vocab"
    by (simp_all add: base_vocab_def)
  then show "lookup base_vocab 256 = Inr pad_token" "lookup base_vocab 257 = Inr bos_token"
    "lookup base_vocab 258 = Inr eos_token"
    using base_vocab_distinct by (simp_all add: lookup_def dict_get_def)
qed

text \<open>
  C8. For a target of at most 259, \<open>train\<close> returns normally and leaves the freshly
  reset state: 259 vocabulary entries, the ids 0 to 255 each mapped to its own byte, the
  ids 256, 257 and 258 mapped to the pad, beginning-of-sequence and end-of-sequence
  tokens, and an empty merge table.
\<close>

theorem train_small_target_is_reset:
  assumes "max_vocab \<le> 259"
  shows "train self texts max_vocab = (Inr (), snd (init_vocab self))
    \<and> dict_len (vocab (snd (train self texts max_vocab))) = 259
    \<and> dict_keys (vocab (snd (train self texts max_vocab))) = map int [0..<259]
    \<and> (\<forall>i. 0 \<le> i \<and> i < 256 \<longrightarrow>
          lookup (vocab (snd (train self texts max_vocab))) i = Inr [of_int i])
    \<and> lookup (vocab (snd (train self texts max_vocab))) 256 = Inr pad_token
    \<and> lookup (vocab (snd (train self texts max_vocab))) 257 = Inr bos_token
    \<and> lookup (vocab (snd (train self texts max_vocab))) 258 = Inr eos_token
    \<and> merges (snd (train self texts max_vocab)) = []"
proof -
  have t: "train self texts max_vocab = (Inr (), snd (init_vocab self))"
    using assms by (simp add: train_def init_vocab_eq base_vocab_len)
  show ?thesis
    unfolding t
    by (simp add: init_vocab_eq base_vocab_len dict_keys_def base_vocab_keys lookup_base_byte
        lookup_base_special)
qed

theorem train_small_target_is_reset_witness:
  "train new_tokenizer [[97, 97, 97, 98], [97, 97, 97, 98]] 100 =
     (Inr (), snd (init_vocab new_tokenizer))
   \<and> dict_len (vocab (snd (train new_tokenizer [[97, 97, 97, 98], [97, 97, 97, 98]] 100))) = 259
   \<and> lookup (vocab (snd (train new_tokenizer [[97, 97, 97, 98], [97, 97, 97, 98]] 100))) 97 = Inr [97]
   \<and> merges (snd (train new_tokenizer [[97, 97, 97, 98], [97, 97, 97, 98]] 100)) = []"
proof -
  have h: "(100::int) \<le> 259" by simp
  show ?thesis
    using train_small_target_is_reset [OF h, of new_tokenizer "[[97, 97, 97, 98], [97, 97, 97, 98]]"]
    by (elim conjE allE [of _ 97]) simp
qed


subsection \<open>Pair selection in encode\<close>

text \<open>The frequency of a pair within one sequence: the number of adjacent positions holding it.\<close>

definition freq :: "pair \<Rightarrow> int list \<Rightarrow> nat" where
  "freq p ids = count_list (adjacent ids) p"

lemma adjacent_nonempty: "adjacent ids \<noteq> []" if "1 < length ids"
proof (cases ids)
  case Nil
  with that show ?thesis by simp
next
  case (Cons x r)
  with that show ?thesis by (cases r) auto
qed

lemma count_pairs_entry:
  assumes "(q, v) \<in> set (count_pairs data)"
  shows "v = int (count_list (concat (map adjacent data)) q)"
proof -
  have "map_of (count_pairs data) q = Some v"
    using assms count_pairs_distinct by simp
  then have "dict_val (count_pairs data) q = v" by (simp add: dict_val_def)
  then show ?thesis by (simp add: count_pairs_val)
qed

lemma max_key_count_pairs:
  assumes "max_key (count_pairs [ids]) = Inr pair"
  shows "0 < freq pair ids \<and> (\<forall>q. freq q ids \<le> freq pair ids)"
proof -
  from max_key_max [OF assms] obtain v where
    v: "(pair, v) \<in> set (count_pairs [ids])"
    and mx: "\<forall>(k', v') \<in> set (count_pairs [ids]). v' \<le> v" by blast
  have pv: "v = int (freq pair ids)"
    using count_pairs_entry [OF v] by (simp add: freq_def)
  have "pair \<in> set (adjacent ids)"
    using max_key_in_keys [OF assms] by (simp add: count_pairs_keys)
  then have pos: "0 < freq pair ids"
    by (simp add: freq_def count_list_0_iff zero_less_iff_neq_zero)
  have "freq q ids \<le> freq pair ids" for q
  proof (cases "q \<in> set (adjacent ids)")
    case True
    then have "q \<in> fst ` set (count_pairs [ids])" by (simp add: count_pairs_keys)
    then obtain w where w: "(q, w) \<in> set (count_pairs [ids])" by force
    from count_pairs_entry [OF w] have "w = int (freq q ids)" by (simp add: freq_def)
    with mx w pv show ?thesis by auto
  next
    case False
    then show ?thesis by (simp add: freq_def)
  qed
  with pos show ?thesis by blast
qed

lemma max_key_count_pairs_ex:
  assumes "1 < length ids"
  shows "\<exists>pair. max_key (count_pairs [ids]) = Inr pair"
proof -
  have "fst ` set (count_pairs [ids]) \<noteq> {}"
    using adjacent_nonempty [OF assms] by (simp add: count_pairs_keys)
  then have "count_pairs [ids] \<noteq> []" by auto
  then show ?thesis by (rule max_key_nonempty)
qed

lemma encode_loop_length: "encode_loop mrg ids = Inr r \<Longrightarrow> length r \<le> length ids"
proof (induction mrg ids rule: encode_loop.induct)
  case (1 mrg ids)
  show ?case
  proof (cases "1 < length ids")
    case False
    with "1.prems" show ?thesis by (simp add: encode_loop.simps [of mrg ids])
  next
    case True
    from max_key_count_pairs_ex [OF True] obtain pair where
      p: "max_key (count_pairs [ids]) = Inr pair" by blast
    show ?thesis
    proof (cases "dict_get mrg pair")
      case None
      with True p "1.prems" show ?thesis by (simp add: encode_loop.simps [of mrg ids])
    next
      case (Some idx)
      note u = encode_loop.simps [of mrg ids]
      from True p Some have "encode_loop mrg ids =
        (case merge ids pair idx of Inl e \<Rightarrow> Inl e | Inr ids' \<Rightarrow> encode_loop mrg ids')"
        by (subst u) simp
      with "1.prems" obtain ids' where m: "merge ids pair idx = Inr ids'"
        and e: "encode_loop mrg ids' = Inr r"
        by (cases "merge ids pair idx") simp_all
      from "1.IH" [OF True p Some m e] merge_shrinks [OF p m] show ?thesis by simp
    qed
  qed
qed

lemma encode_loop_goes_on:
  assumes l: "1 < length ids" and p: "max_key (count_pairs [ids]) = Inr pair"
    and s: "dict_get mrg pair = Some idx"
  shows "encode_loop mrg ids =
           (case merge ids pair idx of Inl e \<Rightarrow> Inl e | Inr ids' \<Rightarrow> encode_loop mrg ids')"
    and "encode_loop mrg ids \<noteq> Inr ids"
proof -
  show u: "encode_loop mrg ids =
           (case merge ids pair idx of Inl e \<Rightarrow> Inl e | Inr ids' \<Rightarrow> encode_loop mrg ids')"
    using l p s by (subst encode_loop.simps) simp
  show "encode_loop mrg ids \<noteq> Inr ids"
  proof
    assume r: "encode_loop mrg ids = Inr ids"
    with u obtain ids' where m: "merge ids pair idx = Inr ids'"
      and e: "encode_loop mrg ids' = Inr ids"
      by (cases "merge ids pair idx") simp_all
    from encode_loop_length [OF e] merge_shrinks [OF p m] show False by simp
  qed
qed

lemma encode_loop_stops:
  assumes l: "1 < length ids" and p: "max_key (count_pairs [ids]) = Inr pair"
    and s: "dict_get mrg pair = None"
  shows "encode_loop mrg ids = Inr ids"
  using l p s by (subst encode_loop.simps) simp

text \<open>
  What holds of the loop of \<open>encode\<close>. In every pass the pair looked up in the merge
  table is a pair of maximum adjacent-pair frequency within the current working sequence,
  whatever the ids (the training ranks) of the entries of the table are. The loop returns
  the working sequence when that sequence has at most one element or the selected pair is
  not in the merge table; otherwise \<open>merge\<close> is called with the selected pair, and either
  it raises or the loop goes on with what it returns, a shorter sequence. With the table
  \<open>{(97, 98): 259, (98, 99): 260}\<close> the text \<open>abcbcd\<close> is encoded through the later
  entry, the pair \<open>(98, 99)\<close> being the most frequent, although the earlier entry
  \<open>(97, 98)\<close> occurs in it.
\<close>

lemma encode_loop_selection:
  "(length ids \<le> 1 \<longrightarrow> encode_loop mrg ids = Inr ids) \<and>
   (1 < length ids \<longrightarrow>
      (\<exists>pair. max_key (count_pairs [ids]) = Inr pair
         \<and> 0 < freq pair ids \<and> (\<forall>q. freq q ids \<le> freq pair ids)
         \<and> (case dict_get mrg pair of
               None \<Rightarrow> encode_loop mrg ids = Inr ids
             | Some idx \<Rightarrow>
                 encode_loop mrg ids =
                   (case merge ids pair idx of Inl e \<Rightarrow> Inl e
                    | Inr ids' \<Rightarrow> encode_loop mrg ids')
                 \<and> (\<forall>ids'. merge ids pair idx = Inr ids' \<longrightarrow> length ids' < length ids)
                 \<and> encode_loop mrg ids \<noteq> Inr ids)))
   \<and> encode_loop [((97, 98), 259), ((98, 99), 260)] [97, 98, 99, 98, 99, 100] =
       Inr [97, 260, 260, 100]"
proof (intro conjI impI)
  assume "length ids \<le> 1"
  then show "encode_loop mrg ids = Inr ids"
    by (subst encode_loop.simps) simp
next
  assume l: "1 < length ids"
  from max_key_count_pairs_ex [OF l] obtain pair where
    p: "max_key (count_pairs [ids]) = Inr pair" by blast
  have "case dict_get mrg pair of
          None \<Rightarrow> encode_loop mrg ids = Inr ids
        | Some idx \<Rightarrow>
            encode_loop mrg ids =
              (case merge ids pair idx of Inl e \<Rightarrow> Inl e | Inr ids' \<Rightarrow> encode_loop mrg ids')
            \<and> (\<forall>ids'. merge ids pair idx = Inr ids' \<longrightarrow> length ids' < length ids)
            \<and> encode_loop mrg ids \<noteq> Inr ids"
  proof (cases "dict_get mrg pair")
    case None
    with encode_loop_stops [OF l p None] show ?thesis by simp
  next
    case (Some idx)
    with encode_loop_goes_on [OF l p Some] merge_shrinks [OF p] show ?thesis by simp
  qed
  with p max_key_count_pairs [OF p] show "\<exists>pair. max_key (count_pairs [ids]) = Inr pair
         \<and> 0 < freq pair ids \<and> (\<forall>q. freq q ids \<le> freq pair ids)
         \<and> (case dict_get mrg pair of
               None \<Rightarrow> encode_loop mrg ids = Inr ids
             | Some idx \<Rightarrow>
                 encode_loop mrg ids =
                   (case merge ids pair idx of Inl e \<Rightarrow> Inl e
                    | Inr ids' \<Rightarrow> encode_loop mrg ids')
                 \<and> (\<forall>ids'. merge ids pair idx = Inr ids' \<longrightarrow> length ids' < length ids)
                 \<and> encode_loop mrg ids \<noteq> Inr ids)"
    by blast
next
  have c1: "count_pairs [[97, 98, 99, 98, 99, 100]] =
        [((97, 98), 1), ((98, 99), 2), ((99, 98), 1), ((99, 100), 1)]"
    by (simp add: count_pairs_adjacent count_one_def dict_get_def)
  have c2: "count_pairs [[97, 260, 260, 100]] = [((97, 260), 1), ((260, 260), 1), ((260, 100), 1)]"
    by (simp add: count_pairs_adjacent count_one_def dict_get_def)
  have m: "merge [97, 98, 99, 98, 99, 100] (98, 99) 260 = Inr [97, 260, 260, 100]"
    by (simp add: merge_eq_rewrite ends_replaced_def)
  show "encode_loop [((97, 98), 259), ((98, 99), 260)] [97, 98, 99, 98, 99, 100] =
       Inr [97, 260, 260, 100]"
    by (simp add: encode_loop.simps [of _ "[97, 98, 99, 98, 99, 100]"]
        encode_loop.simps [of _ "[97, 260, 260, 100]"] c1 c2 m dict_get_def)
qed

lemma encode_unfold:
  "ids_of_text text = Inr ids \<Longrightarrow> encode self text = encode_loop (merges self) ids"
  by (simp add: encode_def)

text \<open>
  C6. \<open>encode\<close> is claimed to stop exactly when the working sequence has at most one
  element or the selected pair of maximum frequency is absent from the merge table. On the
  tokenizer that \<open>train(["aaab", "aaab"], 260)\<close> leaves, \<open>encode("aa")\<close> starts with the
  working sequence \<open>[97, 97]\<close> of length 2; the selected pair \<open>(97, 97)\<close>, the only
  one and so of maximum frequency, is in the merge table with the id 259; and \<open>encode\<close>
  stops all the same, by the IndexError that \<open>merge\<close> raises.
\<close>

theorem encode_stops_by_raising:
  "ids_of_text [97, 97] = Inr [97, 97]
   \<and> \<not> length [97, 97 :: int] \<le> 1
   \<and> max_key (count_pairs [[97, 97]]) = Inr (97, 97)
   \<and> freq (97, 97) [97, 97] = 1
   \<and> adjacent [97, 97 :: int] = [(97, 97)]
   \<and> fst (train new_tokenizer [[97, 97, 97, 98], [97, 97, 97, 98]] 260) = Inr ()
   \<and> lookup (merges (snd (train new_tokenizer [[97, 97, 97, 98], [97, 97, 97, 98]] 260)))
         (97, 97) = Inr 259
   \<and> merge [97, 97] (97, 97) 259 = Inl IndexError
   \<and> encode (snd (train new_tokenizer [[97, 97, 97, 98], [97, 97, 97, 98]] 260)) [97, 97] =
       Inl IndexError"
proof -
  have i: "ids_of_text [97, 97] = Inr [97, 97]"
    by (simp add: ids_of_text_def utf8_char_def)
  have c: "count_pairs [[97, 97]] = [((97, 97), 1)]"
    by (simp add: count_pairs_adjacent count_one_def dict_get_def)
  have m: "merge [97, 97] (97, 97) 259 = Inl IndexError"
    by (simp add: merge_eq_rewrite ends_replaced_def)
  have t: "train new_tokenizer [[97, 97, 97, 98], [97, 97, 97, 98]] 260 =
      (Inr (), trained_aaab new_tokenizer)"
    by (rule train_aaab)
  have g: "merges (trained_aaab new_tokenizer) = [((97, 97), 259)]"
    by (simp add: trained_aaab_def)
  have l: "lookup [((97, 97), 259 :: int)] (97 :: int, 97 :: int) = Inr 259"
    by (simp add: lookup_def dict_get_def)
  have e: "encode (trained_aaab new_tokenizer) [97, 97] = Inl IndexError"
    unfolding encode_unfold [OF i] g
    by (simp add: encode_loop.simps [of _ "[97, 97]"] c m dict_get_def)
  have f: "freq (97, 97) [97, 97] = 1" by (simp add: freq_def)
  show ?thesis
    unfolding t by (simp add: i c m g l e f)
qed

subsection \<open>Invariants of training\<close>

text \<open>
  An entry \<open>(left, right) \<mapsto> new_id\<close> of the merge table is sound for a vocabulary
  when \<open>vocab[new_id]\<close> is \<open>vocab[left] + vocab[right]\<close> and both constituents are ids
  below \<open>new_id\<close>: ids are handed out in increasing order, so these are the ids that were
  in the vocabulary when \<open>new_id\<close> was assigned.
\<close>

definition entry_sound :: "(int, bytes) dict \<Rightarrow> pair \<times> int \<Rightarrow> bool" where
  "entry_sound v e =
     (case e of ((left, right), new_id) \<Rightarrow>
        0 \<le> left \<and> left < new_id \<and> 0 \<le> right \<and> right < new_id \<and>
        (case (lookup v left, lookup v right, lookup v new_id) of
           (Inr vl, Inr vr, Inr vn) \<Rightarrow> vn = vl @ vr
         | _ \<Rightarrow> False))"

definition merge_sound :: "tokenizer \<Rightarrow> bool" where
  "merge_sound self = (\<forall>e \<in> set (merges self). entry_sound (vocab self) e)"

text \<open>
  The state of a training run at the head of its loop after \<open>k\<close> passes that went on
  to a next pass: the tokenizer and the working sequences, if the run gets that far.
  Before the first pass these are the reset tokenizer and the byte sequences of the texts.
\<close>

fun loop_head :: "nat \<Rightarrow> tokenizer \<Rightarrow> int list list \<Rightarrow> (tokenizer \<times> int list list) option" where
  "loop_head 0 self list_of_ids = Some (self, list_of_ids)"
| "loop_head (Suc k) self list_of_ids =
     (case train_body self list_of_ids of
        (Next list_of_ids', self1) \<Rightarrow> loop_head k self1 list_of_ids'
      | _ \<Rightarrow> None)"

definition training_state ::
  "tokenizer \<Rightarrow> str list \<Rightarrow> nat \<Rightarrow> (tokenizer \<times> int list list) option" where
  "training_state self texts k =
     (case init_vocab self of
        (Inl e, self1) \<Rightarrow> None
      | (Inr u, self1) \<Rightarrow>
          (case ids_of_texts texts of Inl e \<Rightarrow> None
           | Inr list_of_ids \<Rightarrow> loop_head k self1 list_of_ids))"

text \<open>
  What the loop maintains: the vocabulary keys are \<open>0, \<dots>, len - 1\<close> in order, the merge
  table is sound with ids inside the vocabulary and one key per recorded merge, every id
  of a working sequence is in the vocabulary, and no pair of the merge table is left in a
  working sequence.
\<close>

definition tok_inv :: "tokenizer \<Rightarrow> bool" where
  "tok_inv t \<longleftrightarrow>
     dict_keys (vocab t) = map int [0..<dict_len (vocab t)] \<and>
     merge_sound t \<and>
     (\<forall>(q, n) \<in> set (merges t). n < int (dict_len (vocab t))) \<and>
     dict_len (vocab t) = 259 + dict_len (merges t) \<and>
     distinct (dict_keys (merges t))"

definition seq_inv :: "tokenizer \<Rightarrow> int list list \<Rightarrow> bool" where
  "seq_inv t ls \<longleftrightarrow>
     (\<forall>ids \<in> set ls. \<forall>x \<in> set ids. 0 \<le> x \<and> x < int (dict_len (vocab t))) \<and>
     (\<forall>q \<in> set (dict_keys (merges t)). \<forall>ids \<in> set ls. q \<notin> set (adjacent ids))"

lemma adjacent_members: "(a, b) \<in> set (adjacent xs) \<Longrightarrow> a \<in> set xs \<and> b \<in> set xs"
  unfolding adjacent_def by (cases xs) (auto dest: set_zip_leftD set_zip_rightD)

lemma adjacent_Cons_subset: "set (adjacent r) \<subseteq> set (adjacent (x # r))"
  by (cases r) auto

lemma rewrite_pairs_hd:
  "rewrite_pairs (y # r) p idx \<noteq> [] \<and>
   (hd (rewrite_pairs (y # r) p idx) = y \<or> hd (rewrite_pairs (y # r) p idx) = idx)"
  by (cases r) auto

lemma adjacent_Cons: "zs \<noteq> [] \<Longrightarrow> adjacent (x # zs) = (x, hd zs) # adjacent zs"
  by (cases zs) auto

lemma rewrite_pairs_set: "set (rewrite_pairs xs p idx) \<subseteq> insert idx (set xs)"
  by (induction xs p idx rule: rewrite_pairs.induct) auto

lemma rewrite_pairs_adjacent:
  "q \<in> set (adjacent (rewrite_pairs xs p idx)) \<Longrightarrow>
   (q \<in> set (adjacent xs) \<and> q \<noteq> p) \<or> fst q = idx \<or> snd q = idx"
proof (induction xs p idx rule: rewrite_pairs.induct)
  case (1 x y r p idx)
  show ?case
  proof (cases "(x, y) = p")
    case True
    show ?thesis
    proof (cases "rewrite_pairs r p idx = []")
      case e: True
      with True "1.prems" show ?thesis by simp
    next
      case False
      with True "1.prems" have "q = (idx, hd (rewrite_pairs r p idx)) \<or>
          q \<in> set (adjacent (rewrite_pairs r p idx))"
        by (simp add: adjacent_Cons)
      then show ?thesis
      proof
        assume "q = (idx, hd (rewrite_pairs r p idx))"
        then show ?thesis by simp
      next
        assume "q \<in> set (adjacent (rewrite_pairs r p idx))"
        from "1.IH"(1) [OF True this] show ?thesis
          using adjacent_Cons_subset [of r y] by auto
      qed
    qed
  next
    case False
    note h = rewrite_pairs_hd [of y r p idx]
    from False "1.prems" h have "q = (x, hd (rewrite_pairs (y # r) p idx)) \<or>
          q \<in> set (adjacent (rewrite_pairs (y # r) p idx))"
      by (simp add: adjacent_Cons)
    then show ?thesis
    proof
      assume q: "q = (x, hd (rewrite_pairs (y # r) p idx))"
      from h show ?thesis
      proof (elim conjE disjE)
        assume "hd (rewrite_pairs (y # r) p idx) = y"
        with q False show ?thesis by simp
      next
        assume "hd (rewrite_pairs (y # r) p idx) = idx"
        with q show ?thesis by simp
      qed
    next
      assume "q \<in> set (adjacent (rewrite_pairs (y # r) p idx))"
      from "1.IH"(2) [OF False this] show ?thesis by auto
    qed
  qed
qed simp_all

lemma merge_Inr: "merge xs p idx = Inr ys \<Longrightarrow> ys = rewrite_pairs xs p idx"
  by (simp add: merge_eq_rewrite split: if_splits)

lemma merge_all_Inr:
  "merge_all ls p idx = Inr ls' \<Longrightarrow> ls' = map (\<lambda>ids. rewrite_pairs ids p idx) ls"
  by (induction ls arbitrary: ls') (auto split: sum.splits dest: merge_Inr)

lemma lookup_key: "k \<in> fst ` set d \<Longrightarrow> \<exists>v. lookup d k = Inr v"
  by (auto simp: lookup_def dict_get_def map_of_eq_None_iff split: option.splits)

lemma lookup_append_old: "k \<in> fst ` set d \<Longrightarrow> lookup (d @ e) k = lookup d k"
  by (auto simp: lookup_def dict_get_def map_add_def map_of_eq_None_iff split: option.splits)

lemma lookup_append_new:
  assumes "k \<notin> fst ` set d"
  shows "lookup (d @ [(k, v)]) k = Inr v"
proof -
  from assms have "map_of d k = None" by (simp add: map_of_eq_None_iff)
  then show ?thesis by (simp add: lookup_def dict_get_def map_add_def)
qed

lemma key_set_upt:
  assumes "dict_keys d = map int [0..<dict_len d]"
  shows "fst ` set d = {0..<int (dict_len d)}"
proof -
  have "fst ` set d = set (dict_keys d)" by (simp add: dict_keys_def)
  also have "\<dots> = int ` {0..<dict_len d}" unfolding assms by simp
  also have "\<dots> = {0..<int (dict_len d)}" by (simp add: image_int_atLeastLessThan)
  finally show ?thesis .
qed

lemma train_body_max_raise:
  "max_key (count_pairs ls) = Inl e \<Longrightarrow> train_body t ls = (Raise e, t)"
  by (simp add: train_body_def)

lemma train_body_freq_raise:
  "max_key (count_pairs ls) = Inr pair \<Longrightarrow> lookup (count_pairs ls) pair = Inl e \<Longrightarrow>
   train_body t ls = (Raise e, t)"
  by (simp add: train_body_def)

lemma train_body_break:
  "max_key (count_pairs ls) = Inr pair \<Longrightarrow> lookup (count_pairs ls) pair = Inr 1 \<Longrightarrow>
   train_body t ls = (Break, t)"
  by (simp add: train_body_def)

lemma train_body_record:
  assumes "max_key (count_pairs ls) = Inr pair" "lookup (count_pairs ls) pair = Inr f" "f \<noteq> 1"
    and "lookup (vocab t) (fst pair) = Inr l" "lookup (vocab t) (snd pair) = Inr r"
  shows "train_body t ls =
    (case merge_all ls pair (int (dict_len (vocab t))) of
       Inl e \<Rightarrow> (Raise e, t\<lparr>merges := dict_set (merges t) pair (int (dict_len (vocab t))),
                           vocab := dict_set (vocab t) (int (dict_len (vocab t))) (l @ r)\<rparr>)
     | Inr ls' \<Rightarrow> (Next ls', t\<lparr>merges := dict_set (merges t) pair (int (dict_len (vocab t))),
                           vocab := dict_set (vocab t) (int (dict_len (vocab t))) (l @ r)\<rparr>))"
  using assms by (simp add: train_body_def Let_def split: sum.splits)

lemma max_key_pair_in_seq:
  assumes "max_key (count_pairs ls) = Inr pair"
  obtains ids where "ids \<in> set ls" "pair \<in> set (adjacent ids)"
  using max_key_in_keys [OF assms] by (auto simp: count_pairs_keys)

lemma record_inv:
  assumes ti: "tok_inv t" and si: "seq_inv t ls"
    and mk: "max_key (count_pairs ls) = Inr pair"
  defines "n \<equiv> int (dict_len (vocab t))"
  shows "\<exists>l r. lookup (vocab t) (fst pair) = Inr l \<and> lookup (vocab t) (snd pair) = Inr r \<and>
          fst pair \<in> set (dict_keys (vocab t)) \<and> snd pair \<in> set (dict_keys (vocab t)) \<and>
          (let t2 = t\<lparr>merges := dict_set (merges t) pair n,
                       vocab := dict_set (vocab t) n (l @ r)\<rparr>
           in tok_inv t2 \<and> dict_len (vocab t2) = dict_len (vocab t) + 1 \<and>
              dict_len (merges t2) = dict_len (merges t) + 1 \<and>
              (\<forall>ls'. merge_all ls pair n = Inr ls' \<longrightarrow> seq_inv t2 ls'))"
proof -
  have keys: "dict_keys (vocab t) = map int [0..<dict_len (vocab t)]"
    and ms: "merge_sound t"
    and bound: "\<forall>(q, m) \<in> set (merges t). m < n"
    and len: "dict_len (vocab t) = 259 + dict_len (merges t)"
    and dist: "distinct (dict_keys (merges t))"
    using ti unfolding tok_inv_def n_def by blast+
  have range: "\<forall>ids \<in> set ls. \<forall>x \<in> set ids. 0 \<le> x \<and> x < n"
    and gone: "\<forall>q \<in> set (dict_keys (merges t)). \<forall>ids \<in> set ls. q \<notin> set (adjacent ids)"
    using si unfolding seq_inv_def n_def by blast+
  note kset = key_set_upt [OF keys, folded n_def]
  obtain a b where pair: "pair = (a, b)" by (cases pair)
  from mk obtain ids where ids: "ids \<in> set ls" "pair \<in> set (adjacent ids)"
    by (rule max_key_pair_in_seq)
  from ids(2) pair adjacent_members [of a b ids] have "a \<in> set ids" "b \<in> set ids" by auto
  with range ids(1) have ab: "0 \<le> a" "a < n" "0 \<le> b" "b < n" by auto
  then have ak: "a \<in> fst ` set (vocab t)" and bk: "b \<in> fst ` set (vocab t)"
    unfolding kset by auto
  from lookup_key [OF ak] obtain l where l: "lookup (vocab t) a = Inr l" by blast
  from lookup_key [OF bk] obtain r where r: "lookup (vocab t) b = Inr r" by blast
  have nk: "n \<notin> fst ` set (vocab t)" unfolding kset by simp
  have fresh: "pair \<notin> fst ` set (merges t)"
    using gone ids by (auto simp: dict_keys_def)
  define t2 where "t2 = t\<lparr>merges := dict_set (merges t) pair n,
                            vocab := dict_set (vocab t) n (l @ r)\<rparr>"
  have v2: "vocab t2 = vocab t @ [(n, l @ r)]"
    by (simp add: t2_def dict_set_new [OF nk])
  have m2: "merges t2 = merges t @ [(pair, n)]"
    by (simp add: t2_def dict_set_new [OF fresh])
  have len2: "dict_len (vocab t2) = dict_len (vocab t) + 1"
    by (simp add: v2 dict_len_def)
  have mlen2: "dict_len (merges t2) = dict_len (merges t) + 1"
    by (simp add: m2 dict_len_def)
  have keys2: "dict_keys (vocab t2) = map int [0..<dict_len (vocab t2)]"
    using keys by (simp add: len2) (simp add: v2 dict_keys_def n_def)
  have old: "lookup (vocab t2) k = lookup (vocab t) k" if "0 \<le> k" "k < n" for k
  proof -
    from that have "k \<in> fst ` set (vocab t)" unfolding kset by simp
    then show ?thesis unfolding v2 by (rule lookup_append_old)
  qed
  have new: "lookup (vocab t2) n = Inr (l @ r)"
    unfolding v2 by (rule lookup_append_new [OF nk])
  have es_old: "entry_sound (vocab t2) e" if e: "e \<in> set (merges t)" for e
  proof -
    obtain l' r' m where e': "e = ((l', r'), m)" by (metis prod.collapse)
    from bound e e' have "m < n" by auto
    moreover from ms e have s: "entry_sound (vocab t) e"
      unfolding merge_sound_def by auto
    ultimately have "lookup (vocab t2) l' = lookup (vocab t) l'"
      "lookup (vocab t2) r' = lookup (vocab t) r'" "lookup (vocab t2) m = lookup (vocab t) m"
      using s unfolding e' entry_sound_def by (auto intro: old)
    with s show ?thesis unfolding e' entry_sound_def by (auto split: sum.splits)
  qed
  have es_new: "entry_sound (vocab t2) (pair, n)"
    using ab l r new old [of a] old [of b] by (simp add: entry_sound_def pair)
  have ms2: "merge_sound t2"
    unfolding merge_sound_def m2 using es_old es_new by auto
  have ti2: "tok_inv t2"
    unfolding tok_inv_def
  proof (intro conjI)
    show "dict_keys (vocab t2) = map int [0..<dict_len (vocab t2)]" by (rule keys2)
    show "merge_sound t2" by (rule ms2)
    show "\<forall>(q, m) \<in> set (merges t2). m < int (dict_len (vocab t2))"
      using bound by (auto simp: m2 len2 n_def)
    show "dict_len (vocab t2) = 259 + dict_len (merges t2)"
      using len by (simp add: len2 mlen2)
    show "distinct (dict_keys (merges t2))"
      using dist fresh by (simp add: m2 dict_keys_def)
  qed
  have si2: "seq_inv t2 ls'" if ma: "merge_all ls pair n = Inr ls'" for ls'
    unfolding seq_inv_def
  proof (rule conjI; intro ballI)
    fix ids' x assume i: "ids' \<in> set ls'" and x: "x \<in> set ids'"
    from i merge_all_Inr [OF ma] obtain ids0 where
      i0: "ids0 \<in> set ls" "ids' = rewrite_pairs ids0 pair n" by auto
    with x rewrite_pairs_set [of ids0 pair n] have "x = n \<or> x \<in> set ids0" by auto
    moreover have "0 \<le> y \<and> y < n" if "y \<in> set ids0" for y
      using range i0(1) that by blast
    ultimately have "0 \<le> x \<and> x \<le> n" unfolding n_def by force
    then show "0 \<le> x \<and> x < int (dict_len (vocab t2))"
      by (simp add: len2 n_def)
  next
    fix q ids' assume q: "q \<in> set (dict_keys (merges t2))" and i: "ids' \<in> set ls'"
    from i merge_all_Inr [OF ma] obtain ids0 where
      i0: "ids0 \<in> set ls" "ids' = rewrite_pairs ids0 pair n" by auto
    have qn: "fst q \<noteq> n \<and> snd q \<noteq> n \<and> (q \<noteq> pair \<longrightarrow> q \<notin> set (adjacent ids0))"
    proof (cases "q = pair")
      case True
      with pair ab show ?thesis by auto
    next
      case False
      with q have qk: "q \<in> set (dict_keys (merges t))" by (simp add: m2 dict_keys_def)
      then obtain m where e: "(q, m) \<in> set (merges t)" by (auto simp: dict_keys_def)
      obtain l' r' where q': "q = (l', r')" by (cases q)
      from ms e q' have "l' < m" "r' < m" unfolding merge_sound_def entry_sound_def by auto
      moreover from bound e have "m < n" by auto
      ultimately show ?thesis using gone qk i0(1) q' by auto
    qed
    show "q \<notin> set (adjacent ids')"
    proof
      assume "q \<in> set (adjacent ids')"
      from rewrite_pairs_adjacent [OF this [unfolded i0(2)]] qn show False by auto
    qed
  qed
  have "fst pair \<in> set (dict_keys (vocab t))" "snd pair \<in> set (dict_keys (vocab t))"
    using ak bk pair by (simp_all add: dict_keys_def)
  with l r ti2 len2 mlen2 si2 pair show ?thesis
    unfolding t2_def Let_def by (intro exI [of _ l] exI [of _ r]) simp
qed

text \<open>The number of times the body of the training loop is entered.\<close>

fun loop_passes :: "nat \<Rightarrow> tokenizer \<Rightarrow> int list list \<Rightarrow> nat" where
  "loop_passes 0 self list_of_ids = 0"
| "loop_passes (Suc n) self list_of_ids =
     Suc (case train_body self list_of_ids of
            (Next list_of_ids', self1) \<Rightarrow> loop_passes n self1 list_of_ids'
          | _ \<Rightarrow> 0)"

definition train_passes :: "tokenizer \<Rightarrow> str list \<Rightarrow> int \<Rightarrow> nat" where
  "train_passes self texts max_vocab =
     (case init_vocab self of
        (Inl e, self1) \<Rightarrow> 0
      | (Inr u, self1) \<Rightarrow>
          if max_vocab \<le> int (dict_len (vocab self1)) then 0
          else
            (case ids_of_texts texts of Inl e \<Rightarrow> 0
             | Inr list_of_ids \<Rightarrow>
                 loop_passes (nat (max_vocab - int (dict_len (vocab self1)))) self1 list_of_ids))"

lemma utf8_encode_ids_range:
  "\<forall>x \<in> set ids. 0 \<le> x \<and> x < 256" if "ids_of_text text = Inr ids"
proof (cases "utf8_encode text")
  case (Inl e)
  with that show ?thesis by (simp add: ids_of_text_def)
next
  case (Inr bs)
  with that have "ids = map uint bs" by (auto simp: ids_of_text_def)
  moreover have "0 \<le> uint b \<and> uint b < 256" for b :: byte
    using uint_bounded [of b] by simp
  ultimately show ?thesis by auto
qed

lemma ids_of_texts_range:
  "ids_of_texts texts = Inr ls \<Longrightarrow> \<forall>ids \<in> set ls. \<forall>x \<in> set ids. 0 \<le> x \<and> x < 256"
proof (induction texts arbitrary: ls)
  case Nil
  then show ?case by simp
next
  case (Cons s texts)
  from Cons.prems obtain ids r where
    "ids_of_text s = Inr ids" "ids_of_texts texts = Inr r" "ls = ids # r"
    by (auto split: sum.splits)
  with Cons.IH [of r] utf8_encode_ids_range [of s ids] show ?case by auto
qed

lemma tok_inv_init: "tok_inv (snd (init_vocab self))"
  by (simp add: tok_inv_def init_vocab_eq dict_keys_def base_vocab_keys base_vocab_len
      merge_sound_def dict_len_def [of "[]"])

lemma seq_inv_init:
  assumes "ids_of_texts texts = Inr ls"
  shows "seq_inv (snd (init_vocab self)) ls"
  using ids_of_texts_range [OF assms]
  by (force simp: seq_inv_def init_vocab_eq base_vocab_len dict_keys_def)

lemma train_body_inv:
  assumes ti: "tok_inv t" and si: "seq_inv t ls" and tb: "train_body t ls = (fl, t')"
  shows "tok_inv t' \<and>
         (t' = t \<and> (\<forall>ls'. fl \<noteq> Next ls') \<or>
          dict_len (vocab t') = dict_len (vocab t) + 1 \<and>
          dict_len (merges t') = dict_len (merges t) + 1 \<and> fl \<noteq> Break) \<and>
         (\<forall>ls'. fl = Next ls' \<longrightarrow> seq_inv t' ls')"
proof (cases "max_key (count_pairs ls)")
  case (Inl e)
  from train_body_max_raise [OF Inl, of t] tb ti show ?thesis by auto
next
  case (Inr pair)
  show ?thesis
  proof (cases "lookup (count_pairs ls) pair")
    case (Inl e)
    from train_body_freq_raise [OF Inr Inl, of t] tb ti show ?thesis by auto
  next
    case f: (Inr f)
    show ?thesis
    proof (cases "f = 1")
      case True
      from train_body_break [OF Inr f [unfolded True], of t] tb ti show ?thesis by auto
    next
      case False
      define n where "n = int (dict_len (vocab t))"
      from record_inv [OF ti si Inr] obtain l r where
        l: "lookup (vocab t) (fst pair) = Inr l" and r: "lookup (vocab t) (snd pair) = Inr r"
        and t2: "tok_inv (t\<lparr>merges := dict_set (merges t) pair n,
                             vocab := dict_set (vocab t) n (l @ r)\<rparr>)"
          "dict_len (vocab (t\<lparr>merges := dict_set (merges t) pair n,
                             vocab := dict_set (vocab t) n (l @ r)\<rparr>)) = dict_len (vocab t) + 1"
          "dict_len (merges (t\<lparr>merges := dict_set (merges t) pair n,
                             vocab := dict_set (vocab t) n (l @ r)\<rparr>)) = dict_len (merges t) + 1"
          "\<forall>ls'. merge_all ls pair n = Inr ls' \<longrightarrow>
             seq_inv (t\<lparr>merges := dict_set (merges t) pair n,
                             vocab := dict_set (vocab t) n (l @ r)\<rparr>) ls'"
        unfolding n_def Let_def by blast
      note rec = train_body_record [OF Inr f False l r, folded n_def]
      show ?thesis
      proof (cases "merge_all ls pair n")
        case (Inl e)
        with rec tb have "fl = Raise e"
          "t' = t\<lparr>merges := dict_set (merges t) pair n, vocab := dict_set (vocab t) n (l @ r)\<rparr>"
          by simp_all
        with t2 show ?thesis by simp
      next
        case m: (Inr ls2)
        with rec tb have "fl = Next ls2"
          "t' = t\<lparr>merges := dict_set (merges t) pair n, vocab := dict_set (vocab t) n (l @ r)\<rparr>"
          by simp_all
        with t2 m show ?thesis by simp
      qed
    qed
  qed
qed

lemma loop_head_inv:
  "tok_inv t0 \<Longrightarrow> seq_inv t0 ls0 \<Longrightarrow> loop_head k t0 ls0 = Some (t, ls) \<Longrightarrow>
   tok_inv t \<and> seq_inv t ls"
proof (induction k arbitrary: t0 ls0)
  case 0
  then show ?case by simp
next
  case (Suc k)
  obtain fl t1 where tb: "train_body t0 ls0 = (fl, t1)" by (cases "train_body t0 ls0")
  with Suc.prems(3) obtain ls1 where fl: "fl = Next ls1" and lh: "loop_head k t1 ls1 = Some (t, ls)"
    by (cases fl) simp_all
  from train_body_inv [OF Suc.prems(1) Suc.prems(2) tb] fl
  have "tok_inv t1" "seq_inv t1 ls1" by simp_all
  from Suc.IH [OF this lh] show ?case .
qed

lemma training_state_inv:
  assumes "training_state self texts k = Some (t, ls)"
  shows "tok_inv t \<and> seq_inv t ls"
proof (cases "ids_of_texts texts")
  case (Inl e)
  with assms show ?thesis by (simp add: training_state_def init_vocab_eq)
next
  case (Inr ls0)
  with assms have lh: "loop_head k (snd (init_vocab self)) ls0 = Some (t, ls)"
    by (simp add: training_state_def init_vocab_eq)
  from loop_head_inv [OF tok_inv_init seq_inv_init [OF Inr] lh] show ?thesis .
qed

lemma train_loop_inv:
  "tok_inv t \<Longrightarrow> seq_inv t ls \<Longrightarrow>
   tok_inv (snd (train_loop n t ls)) \<and>
   dict_len (vocab (snd (train_loop n t ls))) \<le> dict_len (vocab t) + n"
proof (induction n arbitrary: t ls)
  case 0
  then show ?case by simp
next
  case (Suc n)
  obtain fl t' where tb: "train_body t ls = (fl, t')" by (cases "train_body t ls")
  note inv = train_body_inv [OF Suc.prems tb]
  show ?case
  proof (cases fl)
    case (Next ls')
    with inv have "tok_inv t'" "seq_inv t' ls'" "dict_len (vocab t') = dict_len (vocab t) + 1"
      by auto
    with Suc.IH [of t' ls'] tb Next show ?thesis by simp
  next
    case Break
    with inv tb show ?thesis by auto
  next
    case (Raise e)
    with inv tb show ?thesis by auto
  qed
qed

lemma loop_passes_le: "loop_passes n t ls \<le> n"
  by (induction n arbitrary: t ls) (auto split: prod.splits flow.splits)

lemma train_inv:
  "tok_inv (snd (train self texts max_vocab)) \<and>
   int (dict_len (vocab (snd (train self texts max_vocab)))) \<le> max max_vocab 259"
proof (cases "max_vocab \<le> 259")
  case True
  then have "train self texts max_vocab = (Inr (), snd (init_vocab self))"
    by (simp add: train_def init_vocab_eq base_vocab_len)
  with tok_inv_init [of self] show ?thesis
    by (simp add: init_vocab_eq base_vocab_len)
next
  case False
  show ?thesis
  proof (cases "ids_of_texts texts")
    case (Inl e)
    with False have "train self texts max_vocab = (Inl e, snd (init_vocab self))"
      by (simp add: train_def init_vocab_eq base_vocab_len)
    with tok_inv_init [of self] show ?thesis
      by (simp add: init_vocab_eq base_vocab_len)
  next
    case (Inr ls)
    let ?t0 = "snd (init_vocab self)"
    let ?n = "nat (max_vocab - 259)"
    from Inr False have "snd (train self texts max_vocab) = snd (train_loop ?n ?t0 ls)"
      by (simp add: train_def init_vocab_eq base_vocab_len split: prod.splits sum.splits)
    have eq: "snd (train self texts max_vocab) = snd (train_loop ?n ?t0 ls)" by fact
    have "dict_len (vocab ?t0) = 259" by (simp add: init_vocab_eq base_vocab_len)
    with train_loop_inv [OF tok_inv_init [of self] seq_inv_init [OF Inr, of self], of ?n]
    have i: "tok_inv (snd (train_loop ?n ?t0 ls))"
      and b: "dict_len (vocab (snd (train_loop ?n ?t0 ls))) \<le> 259 + ?n" by simp_all
    from False have "int (259 + ?n) = max_vocab" by simp
    with b have "int (dict_len (vocab (snd (train_loop ?n ?t0 ls)))) \<le> max_vocab" by linarith
    with i show ?thesis unfolding eq by simp
  qed
qed

lemma train_body_aaab:
  "train_body (snd (init_vocab self)) [[97, 97, 97, 98], [97, 97, 97, 98]] =
     (Next [[259, 97, 98], [259, 97, 98]], trained_aaab self)"
  by (simp add: init_vocab_eq train_body_def count_example lookup_def dict_get_def
      base_vocab_len lookup_base_byte [unfolded lookup_def dict_get_def] dict_set_new
      base_vocab_key_set merge_eq_rewrite ends_replaced_def trained_aaab_def)

lemma training_state_aaab:
  "training_state self [[97, 97, 97, 98], [97, 97, 97, 98]] 0 =
     Some (snd (init_vocab self), [[97, 97, 97, 98], [97, 97, 97, 98]])"
  "training_state self [[97, 97, 97, 98], [97, 97, 97, 98]] (Suc 0) =
     Some (trained_aaab self, [[259, 97, 98], [259, 97, 98]])"
proof -
  have i: "ids_of_texts [[97, 97, 97, 98], [97, 97, 97, 98]] =
      Inr [[97, 97, 97, 98], [97, 97, 97, 98]]"
    by (simp add: ids_aaab)
  have v: "init_vocab self = (Inr (), snd (init_vocab self))"
    by (simp add: init_vocab_eq)
  show "training_state self [[97, 97, 97, 98], [97, 97, 97, 98]] 0 =
     Some (snd (init_vocab self), [[97, 97, 97, 98], [97, 97, 97, 98]])"
    unfolding training_state_def by (subst v) (simp add: ids_aaab)
  show "training_state self [[97, 97, 97, 98], [97, 97, 97, 98]] (Suc 0) =
     Some (trained_aaab self, [[259, 97, 98], [259, 97, 98]])"
    unfolding training_state_def by (subst v) (simp add: ids_aaab train_body_aaab)
qed

text \<open>
  C4. After any run of \<open>train\<close>, returned or raised, every entry
  \<open>(left, right) \<mapsto> new_id\<close> of the merge table has \<open>vocab[new_id]\<close> equal to
  \<open>vocab[left] + vocab[right]\<close>. The same holds at the head of the loop and after every
  pass through its body, and the pair that a pass selects has both its ids in the
  vocabulary as it is at that moment, before the entry is recorded.
\<close>

theorem merges_are_concatenations:
  "merge_sound (snd (train self texts max_vocab))
   \<and> (training_state self texts k = Some (t, ls) \<longrightarrow>
        merge_sound t \<and> merge_sound (snd (train_body t ls)) \<and>
        (\<forall>pair. max_key (count_pairs ls) = Inr pair \<longrightarrow>
           fst pair \<in> set (dict_keys (vocab t)) \<and> snd pair \<in> set (dict_keys (vocab t))))"
proof (intro conjI impI)
  show "merge_sound (snd (train self texts max_vocab))"
    using train_inv [of self texts max_vocab] by (simp add: tok_inv_def)
next
  assume ts: "training_state self texts k = Some (t, ls)"
  from training_state_inv [OF ts] have ti: "tok_inv t" and si: "seq_inv t ls" by simp_all
  from ti show "merge_sound t" by (simp add: tok_inv_def)
  obtain fl t' where tb: "train_body t ls = (fl, t')" by (cases "train_body t ls")
  from train_body_inv [OF ti si tb] tb show "merge_sound (snd (train_body t ls))"
    by (simp add: tok_inv_def)
  show "\<forall>pair. max_key (count_pairs ls) = Inr pair \<longrightarrow>
           fst pair \<in> set (dict_keys (vocab t)) \<and> snd pair \<in> set (dict_keys (vocab t))"
    using record_inv [OF ti si] by blast
qed

theorem merges_are_concatenations_witness:
  "training_state new_tokenizer [[97, 97, 97, 98], [97, 97, 97, 98]] (Suc 0) =
     Some (trained_aaab new_tokenizer, [[259, 97, 98], [259, 97, 98]])
   \<and> merges (trained_aaab new_tokenizer) = [((97, 97), 259)]
   \<and> merge_sound (trained_aaab new_tokenizer)
   \<and> entry_sound (vocab (trained_aaab new_tokenizer)) ((97, 97), 259)
   \<and> merge_sound (snd (train new_tokenizer [[97, 97, 97, 98], [97, 97, 97, 98]] 260))
   \<and> max_key (count_pairs [[259, 97, 98], [259, 97, 98]]) = Inr (259, 97)
   \<and> 259 \<in> set (dict_keys (vocab (trained_aaab new_tokenizer)))
   \<and> 97 \<in> set (dict_keys (vocab (trained_aaab new_tokenizer)))"
proof -
  note ts = training_state_aaab(2) [of new_tokenizer]
  note m = merges_are_concatenations [of new_tokenizer "[[97, 97, 97, 98], [97, 97, 97, 98]]" 260
      "Suc 0" "trained_aaab new_tokenizer" "[[259, 97, 98], [259, 97, 98]]"]
  have mk: "max_key (count_pairs [[259, 97, 98], [259, 97, 98]]) = Inr (259, 97)"
    by (simp add: count_pairs_adjacent count_one_def dict_get_def)
  from m ts have s: "merge_sound (trained_aaab new_tokenizer)" by blast
  have mt: "merges (trained_aaab new_tokenizer) = [((97, 97), 259)]"
    by (simp add: trained_aaab_def)
  from s have e: "entry_sound (vocab (trained_aaab new_tokenizer)) ((97, 97), 259)"
    unfolding merge_sound_def mt by simp
  from m ts have "\<forall>pair. max_key (count_pairs [[259, 97, 98], [259, 97, 98]]) = Inr pair \<longrightarrow>
      fst pair \<in> set (dict_keys (vocab (trained_aaab new_tokenizer))) \<and>
      snd pair \<in> set (dict_keys (vocab (trained_aaab new_tokenizer)))"
    by blast
  with mk have k: "259 \<in> set (dict_keys (vocab (trained_aaab new_tokenizer)))"
    "97 \<in> set (dict_keys (vocab (trained_aaab new_tokenizer)))"
    by (metis fst_conv, metis snd_conv)
  from m have t: "merge_sound (snd (train new_tokenizer [[97, 97, 97, 98], [97, 97, 97, 98]] 260))"
    by blast
  from ts mt s e t mk k show ?thesis by blast
qed

text \<open>
  C7, amended. \<open>train\<close> enters its loop body at most \<open>max(0, target_vocab_size - 259)\<close>
  times; every pass that records a merge adds exactly one entry to the vocabulary and one
  to the merge table; the final vocabulary size never exceeds
  \<open>max(target_vocab_size, 259)\<close>, and it is exactly 259 plus the number of recorded
  merges, at the end of a run as at the head of every pass.
\<close>

theorem train_growth_bounds:
  "dict_len (vocab (snd (train self texts max_vocab))) =
     259 + dict_len (merges (snd (train self texts max_vocab)))
   \<and> int (dict_len (vocab (snd (train self texts max_vocab)))) \<le> max max_vocab 259
   \<and> int (train_passes self texts max_vocab) \<le> max 0 (max_vocab - 259)
   \<and> (training_state self texts k = Some (t, ls) \<longrightarrow>
        dict_len (vocab t) = 259 + dict_len (merges t) \<and>
        (train_body t ls = (fl, t') \<longrightarrow> merges t' \<noteq> merges t \<or> (\<exists>ls'. fl = Next ls') \<longrightarrow>
           dict_len (vocab t') = dict_len (vocab t) + 1 \<and>
           dict_len (merges t') = dict_len (merges t) + 1))"
proof (intro conjI impI)
  show "dict_len (vocab (snd (train self texts max_vocab))) =
     259 + dict_len (merges (snd (train self texts max_vocab)))"
    using train_inv [of self texts max_vocab] unfolding tok_inv_def by blast
  show "int (dict_len (vocab (snd (train self texts max_vocab)))) \<le> max max_vocab 259"
    using train_inv [of self texts max_vocab] by blast
  have "train_passes self texts max_vocab \<le> nat (max_vocab - 259)"
    using loop_passes_le
    by (simp add: train_passes_def init_vocab_eq base_vocab_len split: sum.splits)
  then show "int (train_passes self texts max_vocab) \<le> max 0 (max_vocab - 259)"
    by linarith
next
  assume ts: "training_state self texts k = Some (t, ls)"
  from training_state_inv [OF ts] have ti: "tok_inv t" and si: "seq_inv t ls" by simp_all
  from ti show "dict_len (vocab t) = 259 + dict_len (merges t)"
    unfolding tok_inv_def by blast
  assume tb: "train_body t ls = (fl, t')" and rec: "merges t' \<noteq> merges t \<or> (\<exists>ls'. fl = Next ls')"
  from train_body_inv [OF ti si tb] rec
  show "dict_len (vocab t') = dict_len (vocab t) + 1" "dict_len (merges t') = dict_len (merges t) + 1"
    by auto
qed

theorem train_growth_bounds_witness:
  "training_state new_tokenizer [[97, 97, 97, 98], [97, 97, 97, 98]] 0 =
     Some (snd (init_vocab new_tokenizer), [[97, 97, 97, 98], [97, 97, 97, 98]])
   \<and> train_body (snd (init_vocab new_tokenizer)) [[97, 97, 97, 98], [97, 97, 97, 98]] =
       (Next [[259, 97, 98], [259, 97, 98]], trained_aaab new_tokenizer)
   \<and> dict_len (vocab (trained_aaab new_tokenizer)) = 259 + 1
   \<and> dict_len (merges (trained_aaab new_tokenizer)) = 0 + 1
   \<and> int (dict_len (vocab (snd (train new_tokenizer [[97, 97, 97, 98], [97, 97, 97, 98]] 260)))) \<le> 260
   \<and> int (train_passes new_tokenizer [[97, 97, 97, 98], [97, 97, 97, 98]] 260) \<le> 1"
proof -
  note ts = training_state_aaab(1) [of new_tokenizer]
  note tb = train_body_aaab [of new_tokenizer]
  note g = train_growth_bounds [of new_tokenizer "[[97, 97, 97, 98], [97, 97, 97, 98]]" 260
      0 "snd (init_vocab new_tokenizer)" "[[97, 97, 97, 98], [97, 97, 97, 98]]"
      "Next [[259, 97, 98], [259, 97, 98]]" "trained_aaab new_tokenizer"]
  from g ts tb have "dict_len (vocab (trained_aaab new_tokenizer)) =
      dict_len (vocab (snd (init_vocab new_tokenizer))) + 1"
    "dict_len (merges (trained_aaab new_tokenizer)) =
      dict_len (merges (snd (init_vocab new_tokenizer))) + 1"
    by blast+
  then have "dict_len (vocab (trained_aaab new_tokenizer)) = 259 + 1"
    "dict_len (merges (trained_aaab new_tokenizer)) = 0 + 1"
    by (simp_all add: init_vocab_eq base_vocab_len dict_len_def [of "[]"])
  moreover from g have
    "int (dict_len (vocab (snd (train new_tokenizer [[97, 97, 97, 98], [97, 97, 97, 98]] 260)))) \<le> 260"
    "int (train_passes new_tokenizer [[97, 97, 97, 98], [97, 97, 97, 98]] 260) \<le> 1"
    by simp_all
  ultimately show ?thesis using ts tb by simp
qed

text \<open>
  C7 as stated fails for a target below 259: \<open>train([], 100)\<close> leaves the 259 base
  entries, more than the target, after zero passes, which is not at most \<open>100 - 259\<close>.
\<close>

theorem train_exceeds_small_target:
  "dict_len (vocab (snd (train new_tokenizer [] 100))) = 259
   \<and> \<not> int (dict_len (vocab (snd (train new_tokenizer [] 100)))) \<le> 100
   \<and> \<not> int (train_passes new_tokenizer [] 100) \<le> 100 - 259"
  by (simp add: train_def train_passes_def init_vocab_eq base_vocab_len)


subsection \<open>Round trip through the base vocabulary\<close>

declare utf8_decode.simps(2) [simp del]

lemma unat_byte: "n < 256 \<Longrightarrow> unat (of_nat n :: byte) = n"
  by (simp add: unat_of_nat)


lemma two_bytes:
  fixes c :: nat
  assumes "0x80 \<le> c" "c < 0x800"
  shows "\<exists>b0 bt. utf8_char c = Inr (b0 # bt) \<and>
           utf8_next (unat b0) (map unat bt @ rest) = (c, length bt)"
proof -
  define a d where "a = c div 64" and "d = c mod 64"
  have c: "c = a * 64 + d" and d: "d < 64"
    by (simp_all add: a_def d_def)
  from c d assms have r: "2 \<le> a" "a < 32" by linarith+
  have u: "utf8_char c = Inr [of_nat (0xC0 + a), of_nat (0x80 + d)]"
    using assms by (simp add: utf8_char_def a_def d_def)
  have n: "unat (of_nat (0xC0 + a) :: byte) = 0xC0 + a"
    "unat (of_nat (0x80 + d) :: byte) = 0x80 + d"
    using r d unat_byte [of "0xC0 + a"] unat_byte [of "0x80 + d"] by simp_all
  have s: "second_ok (0xC0 + a) (0x80 + d)"
    using r d by (simp add: second_ok_def is_cont_def)
  have "utf8_next (0xC0 + a) ((0x80 + d) # rest) = (c, 1)"
    using r s d by (simp add: utf8_next_def c)
  with u n show ?thesis by simp
qed

lemma three_bytes:
  fixes c :: nat
  assumes "0x800 \<le> c" "c < 0x10000" "\<not> (0xD800 \<le> c \<and> c \<le> 0xDFFF)"
  shows "\<exists>b0 bt. utf8_char c = Inr (b0 # bt) \<and>
           utf8_next (unat b0) (map unat bt @ rest) = (c, length bt)"
proof -
  define q d where "q = c div 64" and "d = c mod 64"
  define a b where "a = q div 64" and "b = q mod 64"
  have c: "c = q * 64 + d" and d: "d < 64" by (simp_all add: q_def d_def)
  have q: "q = a * 64 + b" and b: "b < 64" by (simp_all add: a_def b_def)
  have a4096: "c div 4096 = a"
    unfolding a_def q_def by (simp add: div_mult2_eq [symmetric])
  from c d q b assms have r: "a < 16" "a = 0 \<longrightarrow> 32 \<le> b" "a = 13 \<longrightarrow> b < 32"
    by linarith+
  have cc: "c = (a * 64 + b) * 64 + d" using c q by simp
  have u: "utf8_char c = Inr [of_nat (0xE0 + a), of_nat (0x80 + b), of_nat (0x80 + d)]"
    using assms by (simp add: utf8_char_def a4096) (simp add: q_def b_def d_def)
  have n: "unat (of_nat (0xE0 + a) :: byte) = 0xE0 + a"
    "unat (of_nat (0x80 + b) :: byte) = 0x80 + b"
    "unat (of_nat (0x80 + d) :: byte) = 0x80 + d"
    using r b d unat_byte [of "0xE0 + a"] unat_byte [of "0x80 + b"] unat_byte [of "0x80 + d"]
    by simp_all
  have s: "second_ok (0xE0 + a) (0x80 + b)"
    using r b by (auto simp: second_ok_def is_cont_def)
  have "utf8_next (0xE0 + a) ((0x80 + b) # (0x80 + d) # rest) = (c, 2)"
    using r(1) s d by (simp add: utf8_next_def is_cont_def cc)
  with u n show ?thesis by simp
qed

lemma four_bytes:
  fixes c :: nat
  assumes "0x10000 \<le> c" "c < 0x110000"
  shows "\<exists>b0 bt. utf8_char c = Inr (b0 # bt) \<and>
           utf8_next (unat b0) (map unat bt @ rest) = (c, length bt)"
proof -
  define q d where "q = c div 64" and "d = c mod 64"
  define p e where "p = q div 64" and "e = q mod 64"
  define a b where "a = p div 64" and "b = p mod 64"
  have c: "c = q * 64 + d" and d: "d < 64" by (simp_all add: q_def d_def)
  have q: "q = p * 64 + e" and e: "e < 64" by (simp_all add: p_def e_def)
  have p: "p = a * 64 + b" and b: "b < 64" by (simp_all add: a_def b_def)
  have p4096: "c div 4096 = p"
    unfolding p_def q_def by (simp add: div_mult2_eq [symmetric])
  have a262144: "c div 262144 = a"
    unfolding a_def p4096 [symmetric] by (simp add: div_mult2_eq [symmetric])
  from c d q e p b assms have r: "a < 5" "a = 0 \<longrightarrow> 16 \<le> b" "a = 4 \<longrightarrow> b < 16"
    by linarith+
  have cc: "c = ((a * 64 + b) * 64 + e) * 64 + d" using c q p by simp
  have u: "utf8_char c = Inr [of_nat (0xF0 + a), of_nat (0x80 + b), of_nat (0x80 + e),
                              of_nat (0x80 + d)]"
    using assms by (simp add: utf8_char_def a262144 p4096) (simp add: b_def q_def e_def d_def)
  have n: "unat (of_nat (0xF0 + a) :: byte) = 0xF0 + a"
    "unat (of_nat (0x80 + b) :: byte) = 0x80 + b"
    "unat (of_nat (0x80 + e) :: byte) = 0x80 + e"
    "unat (of_nat (0x80 + d) :: byte) = 0x80 + d"
    using r b e d unat_byte [of "0xF0 + a"] unat_byte [of "0x80 + b"] unat_byte [of "0x80 + e"]
      unat_byte [of "0x80 + d"]
    by simp_all
  have s: "second_ok (0xF0 + a) (0x80 + b)"
    using r b by (auto simp: second_ok_def is_cont_def)
  have "utf8_next (0xF0 + a) ((0x80 + b) # (0x80 + e) # (0x80 + d) # rest) = (c, 3)"
    using r(1) s e d by (simp add: utf8_next_def is_cont_def cc)
  with u n show ?thesis by simp
qed

lemma one_byte:
  fixes c :: nat
  assumes "c < 0x80"
  shows "\<exists>b0 bt. utf8_char c = Inr (b0 # bt) \<and>
           utf8_next (unat b0) (map unat bt @ rest) = (c, length bt)"
  using assms unat_byte [of c] by (simp add: utf8_char_def utf8_next_def)

lemma utf8_char_decodes:
  assumes "valid_code_point c"
  shows "\<exists>b0 bt. utf8_char c = Inr (b0 # bt) \<and>
           utf8_next (unat b0) (map unat bt @ rest) = (c, length bt)"
proof -
  consider (one) "c < 0x80" | (two) "0x80 \<le> c" "c < 0x800"
    | (three) "0x800 \<le> c" "c < 0x10000" "\<not> (0xD800 \<le> c \<and> c \<le> 0xDFFF)"
    | (four) "0x10000 \<le> c" "c < 0x110000"
    using assms unfolding valid_code_point_def by linarith
  then show ?thesis
    by cases (rule one_byte two_bytes three_bytes four_bytes; assumption)+
qed

lemma utf8_decode_step:
  "utf8_next b0 (bt @ rest) = (c, length bt) \<Longrightarrow>
   utf8_decode (b0 # bt @ rest) = c # utf8_decode rest"
  by (simp add: utf8_decode.simps(2))

lemma utf8_roundtrip:
  "valid_str s \<Longrightarrow> \<exists>bs. utf8_encode s = Inr bs \<and> utf8_decode (map unat bs) = s"
proof (induction s)
  case Nil
  show ?case by simp
next
  case (Cons c cs)
  from Cons.prems have vc: "valid_code_point c" and vs: "valid_str cs"
    by (simp_all add: valid_str_def)
  from Cons.IH [OF vs] obtain r where r: "utf8_encode cs = Inr r" "utf8_decode (map unat r) = cs"
    by blast
  from utf8_char_decodes [OF vc, of "map unat r"] obtain b0 bt where
    ch: "utf8_char c = Inr (b0 # bt)"
    and nx: "utf8_next (unat b0) (map unat bt @ map unat r) = (c, length bt)" by blast
  from nx have "utf8_next (unat b0) (map unat bt @ map unat r) = (c, length (map unat bt))"
    by simp
  from utf8_decode_step [OF this] r(2)
  have "utf8_decode (map unat ((b0 # bt) @ r)) = c # cs" by simp
  moreover from ch r(1) have "utf8_encode (c # cs) = Inr ((b0 # bt) @ r)" by simp
  ultimately show ?case by blast
qed

lemma encode_loop_no_merges: "encode_loop [] ids = Inr ids"
proof (cases "1 < length ids")
  case True
  from max_key_count_pairs_ex [OF True] obtain pair where
    "max_key (count_pairs [ids]) = Inr pair" by blast
  with True show ?thesis by (simp add: encode_loop.simps [of "[]" ids] dict_get_def)
next
  case False
  then show ?thesis by (simp add: encode_loop.simps [of "[]" ids])
qed

lemma join_base_vocab: "join_vocab base_vocab (map uint bs) = Inr bs"
proof (induction bs)
  case Nil
  show ?case by simp
next
  case (Cons b bs)
  have "0 \<le> uint b" "uint b < 256" using uint_bounded [of b] by simp_all
  from lookup_base_byte [OF this] Cons show ?case by simp
qed

text \<open>
  C5. With the untrained tokenizer, the base vocabulary of 259 entries and an empty merge
  table, \<open>decode(encode(s))\<close> is \<open>s\<close> for every valid Unicode string \<open>s\<close>; this
  holds for \<open>ByteTokenizer.encode\<close> and for \<open>BpeTokenizer.encode\<close>, which return the
  same ids.
\<close>

theorem untrained_round_trip:
  assumes "valid_str s"
  shows "\<exists>ids. encode (snd (init_vocab self)) s = Inr ids
           \<and> byte_encode (snd (init_vocab self)) s = Inr ids
           \<and> decode (snd (init_vocab self)) ids = Inr s"
proof -
  from utf8_roundtrip [OF assms] obtain bs where
    bs: "utf8_encode s = Inr bs" "utf8_decode (map unat bs) = s" by blast
  have "encode (snd (init_vocab self)) s = Inr (map uint bs)"
    using bs(1) by (simp add: encode_def ids_of_text_def init_vocab_eq encode_loop_no_merges)
  moreover have "byte_encode (snd (init_vocab self)) s = Inr (map uint bs)"
    using bs(1) by (simp add: byte_encode_def ids_of_text_def)
  moreover have "decode (snd (init_vocab self)) (map uint bs) = Inr s"
    using bs(2) by (simp add: decode_def init_vocab_eq join_base_vocab)
  ultimately show ?thesis by blast
qed

theorem untrained_round_trip_witness:
  "valid_str [97, 233, 8364, 128512]
   \<and> encode new_tokenizer [97, 233, 8364, 128512] =
       Inr [97, 195, 169, 226, 130, 172, 240, 159, 152, 128]
   \<and> decode new_tokenizer [97, 195, 169, 226, 130, 172, 240, 159, 152, 128] =
       Inr [97, 233, 8364, 128512]"
proof -
  have v: "valid_str [97, 233, 8364, 128512]"
    by (simp add: valid_str_def valid_code_point_def)
  have t: "snd (init_vocab \<lparr>pad_token_id = None, bos_token_id = None, eos_token_id = None,
                           vocab = [], merges = []\<rparr>) = new_tokenizer"
    by (simp add: new_tokenizer_def)
  have "utf8_encode [97, 233, 8364, 128512] = Inr [97, 195, 169, 226, 130, 172, 240, 159, 152, 128]"
    by (simp add: utf8_char_def)
  then have e: "encode new_tokenizer [97, 233, 8364, 128512] =
       Inr [97, 195, 169, 226, 130, 172, 240, 159, 152, 128]"
    by (simp add: encode_def ids_of_text_def new_tokenizer_def init_vocab_eq encode_loop_no_merges)
  from untrained_round_trip [OF v, of "\<lparr>pad_token_id = None, bos_token_id = None,
      eos_token_id = None, vocab = [], merges = []\<rparr>"] e v
  show ?thesis unfolding t by auto
qed

end
